theory Spec2Isabelle
  imports Complex_Main "HOL-Library.Multiset"
begin

section \<open>Data model\<close>

text \<open>
  JavaScript numbers are modelled as the reals: every number of the model is finite and
  arithmetic is exact, so rounding and overflow to Infinity are outside the model. NaN is
  modelled where reading a missing field can produce it (the motion planner's clock). An optional field (\<^verbatim>\<open>z?: number\<close>) is an \<open>option\<close>, with \<open>None\<close> for \<^verbatim>\<open>undefined\<close>.

  The fields \<^verbatim>\<open>x, y, z, a\<close> of \<^verbatim>\<open>RawPoint\<close> are named \<open>px, py, pz, pa\<close> here, since a
  one-letter constant would capture the variables of every later statement.
\<close>

record RawPoint =
  px :: real
  py :: real
  pz :: "real option"
  pa :: "real option"

datatype StrokeType = TStroke | TDot

record Stroke =
  points :: "RawPoint list"
  pressure :: "real list option"
  stype :: "StrokeType option"

text \<open>
  The result of the tracer and the input of the planner; the free-text \<^verbatim>\<open>metadata.notes\<close>
  is not modelled.
\<close>

record SignatureAnalysis =
  strokes :: "Stroke list"
  original_size :: "nat \<times> nat"

text \<open>A point with coordinates only, as the concrete inputs below use it.\<close>

definition pt :: "real \<Rightarrow> real \<Rightarrow> RawPoint" where
  "pt u v = \<lparr>px = u, py = v, pz = None, pa = None\<rparr>"

text \<open>A stroke with points only.\<close>

definition strokeOf :: "RawPoint list \<Rightarrow> Stroke" where
  "strokeOf ps = \<lparr>points = ps, pressure = None, stype = None\<rparr>"

section \<open>localTracer.ts: helpers\<close>

definition distSq :: "RawPoint \<Rightarrow> RawPoint \<Rightarrow> real" where
  "distSq p1 p2 = (px p1 - px p2)\<^sup>2 + (py p1 - py p2)\<^sup>2"

section \<open>localTracer.ts: simplification of a jitter-free stroke\<close>

text \<open>
  Lines 569-590 of \<^verbatim>\<open>analyzeSignatureLocal\<close>. \<open>keepPoint prev cur next\<close> is the body of the
  loop: the point is skipped when the base is shorter than one unit (\<^verbatim>\<open>continue\<close>) and
  pushed when its squared deviation from the base exceeds 30.
\<close>

definition keepPoint :: "RawPoint \<Rightarrow> RawPoint \<Rightarrow> RawPoint \<Rightarrow> bool" where
  "keepPoint prev cur nxt =
     (let area = \<bar>0.5 * (px prev * (py cur - py nxt) + px cur * (py nxt - py prev)
                          + px nxt * (py prev - py cur))\<bar>;
          dx = px nxt - px prev;
          dy = py nxt - py prev;
          baseSq = dx * dx + dy * dy
      in if baseSq < 1 then False
         else let deviationSq = (4 * area * area) / baseSq in deviationSq > 30)"

text \<open>
  The loop over \<open>i = 1 .. length - 2\<close>: the second argument is the rest of
  \<open>jitterFreePoints\<close> from index \<open>i\<close> on, the first is \<open>finalPoints\<close> so far (never empty).
\<close>

fun simplifyLoop :: "RawPoint list \<Rightarrow> RawPoint list \<Rightarrow> RawPoint list" where
  "simplifyLoop finalPoints (cur # nxt # rest) =
     simplifyLoop (if keepPoint (last finalPoints) cur nxt then finalPoints @ [cur] else finalPoints)
       (nxt # rest)"
| "simplifyLoop finalPoints [cur] = finalPoints"
| "simplifyLoop finalPoints [] = finalPoints"

text \<open>
  \<open>simplifyPoints\<close> is only reached with at least three points (line 567 skips shorter
  strokes); on the empty list the source would read \<^verbatim>\<open>jitterFreePoints[0]\<close> as undefined,
  which the model leaves as the empty list.
\<close>

fun simplifyPoints :: "RawPoint list \<Rightarrow> RawPoint list" where
  "simplifyPoints [] = []"
| "simplifyPoints (p0 # rest) = simplifyLoop [p0] rest @ [last (p0 # rest)]"

section \<open>localTracer.ts: the stroke order solver\<close>

datatype error = TypeError | NoContext | IndexSizeError | LoadFailed

text \<open>
  \<^verbatim>\<open>cloneStrokes\<close> copies every stroke and every point; on values it is the identity, and the
  model keeps it where the source calls it. The in-place \<^verbatim>\<open>points.reverse()\<close> of the solver
  acts on such a copy, so in the model it returns a reversed stroke.
\<close>

definition cloneStrokes :: "Stroke list \<Rightarrow> Stroke list" where
  "cloneStrokes src = map (\<lambda>s. s\<lparr>points := map (\<lambda>p. p) (points s)\<rparr>) src"

definition reverseStroke :: "Stroke \<Rightarrow> Stroke" where
  "reverseStroke s = s\<lparr>points := rev (points s)\<rparr>"

text \<open>
  The metadata of a stroke (\<^verbatim>\<open>getMeta\<close>); the fields carry the prefix \<open>m_\<close>. The running
  minimum and maximum start at plus and minus Infinity in the source, so the first point
  always replaces them: the model starts them at the first value. A stroke with no point
  is excluded before \<open>getMeta\<close> is used (see \<open>optimizeStrokeOrder\<close>).
\<close>

record StrokeMeta =
  m_stroke :: Stroke
  m_cx :: real
  m_cy :: real
  m_minX :: real
  m_maxX :: real
  m_minY :: real
  m_maxY :: real
  m_width :: real
  m_height :: real
  m_start :: RawPoint
  m_end :: RawPoint

definition runningMin :: "real list \<Rightarrow> real" where
  "runningMin vs = foldl (\<lambda>m v. if v < m then v else m) (hd vs) (tl vs)"

definition runningMax :: "real list \<Rightarrow> real" where
  "runningMax vs = foldl (\<lambda>m v. if v > m then v else m) (hd vs) (tl vs)"

definition getMeta :: "Stroke \<Rightarrow> StrokeMeta" where
  "getMeta s =
     (let ps = points s;
          minX = runningMin (map px ps); maxX = runningMax (map px ps);
          minY = runningMin (map py ps); maxY = runningMax (map py ps);
          sumX = sum_list (map px ps); sumY = sum_list (map py ps)
      in \<lparr>m_stroke = s,
          m_cx = sumX / real (length ps),
          m_cy = sumY / real (length ps),
          m_minX = minX, m_maxX = maxX, m_minY = minY, m_maxY = maxY,
          m_width = maxX - minX,
          m_height = maxY - minY,
          m_start = hd ps,
          m_end = last ps\<rparr>)"

text \<open>Reversing a stroke inside its metadata: the points are reversed and the ends swapped.\<close>

definition flipMeta :: "StrokeMeta \<Rightarrow> StrokeMeta" where
  "flipMeta m = m\<lparr>m_stroke := reverseStroke (m_stroke m), m_start := m_end m, m_end := m_start m\<rparr>"

text \<open>
  Lines 162-179: the two costs of a candidate, to its start and to its end, from the
  current stroke.
\<close>

definition candidateCosts :: "bool \<Rightarrow> StrokeMeta \<Rightarrow> StrokeMeta \<Rightarrow> real \<times> real" where
  "candidateCosts useBias cur cand =
     (let dStart = distSq (m_end cur) (m_start cand);
          dEnd = distSq (m_end cur) (m_end cand);
          backwardThresh = 500;
          isBackStart = (m_cx cand < px (m_end cur) - backwardThresh);
          isBackEnd = (m_cx cand < px (m_end cur) - backwardThresh)
      in if useBias then
           let costStart = (if isBackStart \<and> dStart > 2500 then dStart * 5.0 else dStart);
               costEnd = (if isBackEnd \<and> dEnd > 2500 then dEnd * 5.0 else dEnd);
               yDiff = \<bar>m_cy cand - m_cy cur\<bar>
           in (costStart + yDiff * 5, costEnd + yDiff * 5)
         else (dStart, dEnd))"

text \<open>
  The search for the best candidate (lines 157-191). The state is
  \<open>(bestIdx, bestCost, reverseBest)\<close>; \<open>bestIdx = None\<close> stands for \<open>-1\<close> and
  \<open>bestCost = None\<close> for Infinity, below which every cost of the model lies.
\<close>

definition belowBest :: "real \<Rightarrow> real option \<Rightarrow> bool" where
  "belowBest cost bestCost = (case bestCost of None \<Rightarrow> True | Some b \<Rightarrow> cost < b)"

definition bestStep ::
  "bool \<Rightarrow> StrokeMeta \<Rightarrow> nat option \<times> real option \<times> bool \<Rightarrow> nat \<times> StrokeMeta
     \<Rightarrow> nat option \<times> real option \<times> bool" where
  "bestStep useBias cur best icand =
     (let i = fst icand;
          costStart = fst (candidateCosts useBias cur (snd icand));
          costEnd = snd (candidateCosts useBias cur (snd icand));
          best1 = (if belowBest costStart (fst (snd best)) then (Some i, Some costStart, False)
                   else best)
      in if belowBest costEnd (fst (snd best1)) then (Some i, Some costEnd, True) else best1)"

definition pickBest :: "bool \<Rightarrow> StrokeMeta \<Rightarrow> StrokeMeta list \<Rightarrow> nat option \<times> real option \<times> bool" where
  "pickBest useBias cur pool = foldl (bestStep useBias cur) (None, None, False) (enumerate 0 pool)"

text \<open>\<^verbatim>\<open>pool.splice(bestIdx, 1)\<close>.\<close>

definition removeAt :: "nat \<Rightarrow> 'a list \<Rightarrow> 'a list" where
  "removeAt k xs = take k xs @ drop (Suc k) xs"

lemma bestStep_index:
  "fst best \<in> {None} \<union> Some ` {..<n} \<Longrightarrow> fst icand < n \<Longrightarrow>
     fst (bestStep useBias cur best icand) \<in> {None} \<union> Some ` {..<n}"
  by (auto simp: bestStep_def Let_def)

lemma pickBest_fold_index:
  "fst best \<in> {None} \<union> Some ` {..<n} \<Longrightarrow> \<forall>ic \<in> set ics. fst ic < n \<Longrightarrow>
     fst (foldl (bestStep useBias cur) best ics) \<in> {None} \<union> Some ` {..<n}"
proof (induction ics arbitrary: best)
  case Nil
  then show ?case by simp
next
  case (Cons ic ics)
  have "fst (bestStep useBias cur best ic) \<in> {None} \<union> Some ` {..<n}"
    using Cons.prems by (intro bestStep_index) simp_all
  then show ?case using Cons.IH Cons.prems(2) by simp
qed

lemma pickBest_index:
  assumes "pickBest useBias cur pool = (Some k, rest)"
  shows "k < length pool"
proof -
  have "\<forall>ic \<in> set (enumerate 0 pool). fst ic < length pool"
    by (auto simp: in_set_enumerate_eq)
  then have "fst (pickBest useBias cur pool) \<in> {None} \<union> Some ` {..<length pool}"
    unfolding pickBest_def by (intro pickBest_fold_index) simp_all
  with assms show ?thesis by auto
qed

text \<open>
  The greedy chaining (lines 156-205). Each round removes the winner from the pool, so the
  loop ends; the \<^verbatim>\<open>break\<close> is the branch \<open>None\<close>.
\<close>

function solveLoop :: "bool \<Rightarrow> StrokeMeta \<Rightarrow> StrokeMeta list \<Rightarrow> Stroke list \<Rightarrow> Stroke list" where
  "solveLoop useBias cur pool result =
     (if pool = [] then result
      else
        case pickBest useBias cur pool of
          (None, _, _) \<Rightarrow> result
        | (Some bestIdx, _, reverseBest) \<Rightarrow>
            let winner0 = pool ! bestIdx;
                winner = (if reverseBest then flipMeta winner0 else winner0)
            in solveLoop useBias winner (removeAt bestIdx pool) (result @ [m_stroke winner]))"
  by pat_completeness auto
termination
  apply (relation "measure (\<lambda>(useBias, cur, pool, result). length pool)")
   apply simp
  apply (auto simp: removeAt_def dest!: pickBest_index [OF sym])
  done

declare solveLoop.simps [simp del]

text \<open>
  \<^verbatim>\<open>solve\<close> (lines 141-207). \<^verbatim>\<open>Array.prototype.sort\<close> is stable, as the insertion sort
  \<open>sort_key\<close> is.
\<close>

definition solve :: "Stroke list \<Rightarrow> bool \<Rightarrow> Stroke list" where
  "solve inputStrokes useBias =
     (let pool = map getMeta inputStrokes
      in if pool = [] then []
         else
           let sorted = sort_key m_minX pool;
               first = hd sorted;
               cur = (if px (m_end first) < px (m_start first) \<and> m_width first > m_height first
                      then flipMeta first else first)
           in solveLoop useBias cur (tl sorted) [m_stroke cur])"

text \<open>\<^verbatim>\<open>getScore\<close> (lines 209-218); the first argument is the sum \<open>d\<close> so far.\<close>

fun getScoreFrom :: "real \<Rightarrow> Stroke list \<Rightarrow> real" where
  "getScoreFrom d (s1 # s2 # rest) =
     (let p1 = last (points s1);
          p2 = hd (points s2);
          d1 = d + sqrt (distSq p1 p2);
          d2 = (if px p2 < px p1 - 100 then d1 + 50 else d1)
      in getScoreFrom d2 (s2 # rest))"
| "getScoreFrom d [s1] = d"
| "getScoreFrom d [] = d"

definition getScore :: "Stroke list \<Rightarrow> real" where
  "getScore seq = getScoreFrom 0 seq"

text \<open>Lines 121-138: the indices of the decorations (underlines).\<close>

definition isUnderline :: "real \<Rightarrow> real \<Rightarrow> real \<Rightarrow> StrokeMeta \<Rightarrow> bool" where
  "isUnderline totalW totalH globalMinY m =
     (let isWide = (m_width m > totalW * 0.35);
          isLow = (m_cy m > globalMinY + totalH * 0.65);
          isFlat = (m_width m > m_height m * 2.5)
      in isWide \<and> isLow \<and> isFlat)"

definition underlineIndices :: "Stroke list \<Rightarrow> nat list" where
  "underlineIndices strks =
     (let initialMeta = map getMeta strks;
          globalMinX = runningMin (map m_minX initialMeta);
          globalMaxX = runningMax (map m_maxX initialMeta);
          globalMinY = runningMin (map m_minY initialMeta);
          globalMaxY = runningMax (map m_maxY initialMeta);
          totalW = globalMaxX - globalMinX;
          totalH = globalMaxY - globalMinY
      in filter (\<lambda>i. isUnderline totalW totalH globalMinY (initialMeta ! i)) [0..<length strks])"

definition mainStrokes :: "Stroke list \<Rightarrow> Stroke list" where
  "mainStrokes strks =
     map (\<lambda>i. strks ! i) (filter (\<lambda>i. i \<notin> set (underlineIndices strks)) [0..<length strks])"

definition underlineStrokes :: "Stroke list \<Rightarrow> Stroke list" where
  "underlineStrokes strks =
     map (\<lambda>i. strks ! i) (filter (\<lambda>i. i \<in> set (underlineIndices strks)) [0..<length strks])"

text \<open>
  \<^verbatim>\<open>optimizeStrokeOrder\<close> (lines 90-232). For a stroke with no point the source leaves
  \<^verbatim>\<open>start\<close> and \<^verbatim>\<open>end\<close> undefined in \<^verbatim>\<open>getMeta\<close>; such a stroke is never a decoration (its width
  is minus Infinity), so it reaches \<^verbatim>\<open>solve\<close>, which reads \<^verbatim>\<open>.x\<close> of the ends of every pool
  member (lines 150, 163, 164) and throws a TypeError. The model raises that error before
  any metadata is computed.
\<close>

definition optimizeStrokeOrder :: "Stroke list \<Rightarrow> error + Stroke list" where
  "optimizeStrokeOrder strks =
     (if strks = [] then Inr []
      else if \<exists>s \<in> set strks. points s = [] then Inl TypeError
      else
        let h1 = solve (cloneStrokes (mainStrokes strks)) False;
            h2 = solve (cloneStrokes (mainStrokes strks)) True;
            s1 = getScore h1;
            s2 = getScore h2;
            bestMain = (if s2 < s1 * 1.3 then h2 else h1)
        in Inr (bestMain @ cloneStrokes (underlineStrokes strks)))"

section \<open>Properties of a stroke order\<close>

text \<open>
  An output stroke is an input stroke as it was or with its points in reverse order, and an
  output list is a reordering of an input list when it is, stroke by stroke, such an image
  of a permutation of the input: every input stroke appears exactly once.
\<close>

definition sameOrReversed :: "Stroke \<Rightarrow> Stroke \<Rightarrow> bool" where
  "sameOrReversed out inp \<longleftrightarrow> out = inp \<or> out = reverseStroke inp"

definition reorderedStrokes :: "Stroke list \<Rightarrow> Stroke list \<Rightarrow> bool" where
  "reorderedStrokes out inp \<longleftrightarrow> (\<exists>xs. mset xs = mset inp \<and> list_all2 sameOrReversed out xs)"

text \<open>
  The score in the specification's words: over the transitions from the end of a stroke to
  the start of the next, the total distance plus 50 for each transition that moves more
  than 100 units to the left.
\<close>

definition transitions :: "Stroke list \<Rightarrow> (RawPoint \<times> RawPoint) list" where
  "transitions seq = map (\<lambda>st. (last (points (fst st)), hd (points (snd st)))) (zip seq (tl seq))"

definition specScore :: "Stroke list \<Rightarrow> real" where
  "specScore seq =
     sum_list (map (\<lambda>pq. sqrt (distSq (fst pq) (snd pq))) (transitions seq))
     + 50 * real (length (filter (\<lambda>pq. px (snd pq) < px (fst pq) - 100) (transitions seq)))"

subsection \<open>Concrete inputs\<close>

text \<open>
  Three strokes on which the two cost variants disagree: from the end of \<open>strokeL\<close> the
  stroke above is nearer (30 against 32), and the vertical penalty of the biased variant
  prefers the stroke to the right.
\<close>

definition strokeL :: Stroke where
  "strokeL = strokeOf [pt 0 0, pt 10 0]"

definition strokeUp :: Stroke where
  "strokeUp = strokeOf [pt 10 30, pt 26 30]"

definition strokeR :: Stroke where
  "strokeR = strokeOf [pt 42 0, pt 66 0]"

text \<open>A wide, low and flat stroke (an underline) and a stroke above it.\<close>

definition strokeUnder :: Stroke where
  "strokeUnder = strokeOf [pt 0 100, pt 100 100]"

definition strokeDiag :: Stroke where
  "strokeDiag = strokeOf [pt 0 0, pt 10 10]"

section \<open>localTracer.ts: despeckling\<close>

text \<open>
  The mask is a \<^verbatim>\<open>Uint8Array\<close> in row-major order, modelled as a list of naturals; a
  read past its end gives \<^verbatim>\<open>undefined\<close> in the source, which equals neither 0 nor 1, so every
  test of a cell is guarded by the index being in range.
\<close>

text \<open>The four neighbours of a cell (lines 252-260), as coordinates that may leave the grid.\<close>

definition neighbors :: "nat \<Rightarrow> nat \<Rightarrow> (int \<times> int) list" where
  "neighbors width idx =
     (let cx = int (idx mod width); cy = int (idx div width)
      in [(cx - 1, cy), (cx + 1, cy), (cx, cy - 1), (cx, cy + 1)])"

definition inGrid :: "nat \<Rightarrow> nat \<Rightarrow> int \<times> int \<Rightarrow> bool" where
  "inGrid width height n = (fst n \<ge> 0 \<and> fst n < int width \<and> snd n \<ge> 0 \<and> snd n < int height)"

definition cellIndex :: "nat \<Rightarrow> int \<times> int \<Rightarrow> nat" where
  "cellIndex width n = nat (snd n * int width + fst n)"

text \<open>
  Lines 262-271 for one neighbour; the state is \<open>(seen, stack, componentIndices)\<close>.
\<close>

definition visitNeighbor ::
  "nat list \<Rightarrow> nat \<Rightarrow> nat \<Rightarrow> nat list \<times> nat list \<times> nat list \<Rightarrow> int \<times> int
     \<Rightarrow> nat list \<times> nat list \<times> nat list" where
  "visitNeighbor data width height st n =
     (let seen = fst st; stack = fst (snd st); componentIndices = snd (snd st)
      in if inGrid width height n then
           let nIdx = cellIndex width n
           in if nIdx < length data \<and> data ! nIdx = 1 \<and> nIdx < length seen \<and> seen ! nIdx = 0
              then (seen[nIdx := 1], stack @ [nIdx], componentIndices @ [nIdx])
              else st
         else st)"

definition visitNeighbors ::
  "nat list \<Rightarrow> nat \<Rightarrow> nat \<Rightarrow> nat \<Rightarrow> nat list \<times> nat list \<times> nat list
     \<Rightarrow> nat list \<times> nat list \<times> nat list" where
  "visitNeighbors data width height idx st =
     foldl (visitNeighbor data width height) st (neighbors width idx)"

definition unseenCount :: "nat list \<Rightarrow> nat" where
  "unseenCount seen = length (filter (\<lambda>v. v = 0) seen)"

lemma unseenCount_update:
  "k < length seen \<Longrightarrow> seen ! k = 0 \<Longrightarrow> Suc (unseenCount (seen[k := 1])) = unseenCount seen"
proof (induction seen arbitrary: k)
  case Nil
  then show ?case by simp
next
  case (Cons v seen)
  then show ?case by (cases k) (simp_all add: unseenCount_def)
qed

lemma visitNeighbor_measure:
  "unseenCount (fst (visitNeighbor data width height st n))
     + length (fst (snd (visitNeighbor data width height st n)))
   = unseenCount (fst st) + length (fst (snd st))"
  using unseenCount_update [of "cellIndex width n" "fst st"]
  by (auto simp: visitNeighbor_def Let_def)

lemma visitNeighbors_measure:
  "unseenCount (fst (visitNeighbors data width height idx st))
     + length (fst (snd (visitNeighbors data width height idx st)))
   = unseenCount (fst st) + length (fst (snd st))"
proof -
  have "unseenCount (fst (foldl (visitNeighbor data width height) st ns))
     + length (fst (snd (foldl (visitNeighbor data width height) st ns)))
   = unseenCount (fst st) + length (fst (snd st))" for ns
    by (induction ns arbitrary: st) (simp_all add: visitNeighbor_measure)
  then show ?thesis by (simp add: visitNeighbors_def)
qed

text \<open>
  The flood fill (lines 248-272): \<open>ptr\<close> walks along the stack, which only grows, and every
  push marks an unseen cell as seen, so the loop ends. It returns
  \<open>(count, seen, componentIndices)\<close>.
\<close>

function floodFill ::
  "nat list \<Rightarrow> nat \<Rightarrow> nat \<Rightarrow> nat \<Rightarrow> nat \<Rightarrow> nat list \<times> nat list \<times> nat list
     \<Rightarrow> nat \<times> nat list \<times> nat list" where
  "floodFill data width height ptr cnt st =
     (if ptr < length (fst (snd st)) then
        floodFill data width height (Suc ptr) (Suc cnt)
          (visitNeighbors data width height (fst (snd st) ! ptr) st)
      else (cnt, fst st, snd (snd st)))"
  by pat_completeness auto
termination
proof (relation "measure (\<lambda>(data, width, height, ptr, cnt, st).
                   unseenCount (fst st) + length (fst (snd st)) - ptr)")
  show "wf (measure (\<lambda>(data, width, height, ptr, cnt, st).
                   unseenCount (fst st) + length (fst (snd st)) - ptr))"
    by simp
next
  fix data :: "nat list" and width height ptr cnt :: nat
    and st :: "nat list \<times> nat list \<times> nat list"
  assume "ptr < length (fst (snd st))"
  then show "((data, width, height, Suc ptr, Suc cnt,
                visitNeighbors data width height (fst (snd st) ! ptr) st),
              (data, width, height, ptr, cnt, st))
             \<in> measure (\<lambda>(data, width, height, ptr, cnt, st).
                   unseenCount (fst st) + length (fst (snd st)) - ptr)"
    using visitNeighbors_measure [of data width height "fst (snd st) ! ptr" st] by simp
qed

declare floodFill.simps [simp del]

text \<open>Lines 274-278: \<^verbatim>\<open>data[idx] = 0\<close> for every collected index.\<close>

definition zeroAll :: "nat list \<Rightarrow> nat list \<Rightarrow> nat list" where
  "zeroAll data componentIndices = foldl (\<lambda>d idx. d[idx := 0]) data componentIndices"

text \<open>One round of the outer loop (lines 238-280); the state is \<open>(data, seen)\<close>.\<close>

definition despeckleStep :: "nat \<Rightarrow> nat \<Rightarrow> nat \<Rightarrow> nat list \<times> nat list \<Rightarrow> nat \<Rightarrow> nat list \<times> nat list" where
  "despeckleStep width height minSize ds i =
     (let data = fst ds; seen = snd ds
      in if data ! i = 1 \<and> seen ! i = 0 then
           let filled = floodFill data width height 0 0 (seen[i := 1], [i], [i]);
               cnt = fst filled;
               componentIndices = snd (snd filled)
           in (if cnt < minSize then zeroAll data componentIndices else data, fst (snd filled))
         else ds)"

definition despeckleBitmask :: "nat list \<Rightarrow> nat \<Rightarrow> nat \<Rightarrow> nat \<Rightarrow> nat list" where
  "despeckleBitmask data width height minSize =
     fst (foldl (despeckleStep width height minSize) (data, replicate (length data) 0)
            [0..<length data])"

section \<open>localTracer.ts: the mask and the stroke walker\<close>

text \<open>
  \<^verbatim>\<open>imageData.data\<close> holds four bytes for each pixel of the canvas; the model takes the
  pixels as a list of RGBA values, so \<^verbatim>\<open>data.length / 4\<close> is the length of that list.
\<close>

record Rgba =
  red :: nat
  green :: nat
  blue :: nat
  alpha :: nat

definition luminance :: "Rgba \<Rightarrow> real" where
  "luminance p = 0.299 * real (red p) + 0.587 * real (green p) + 0.114 * real (blue p)"

text \<open>
  Lines 361-374: the mask has \<open>pWidth * pHeight\<close> cells, and the cell of a pixel is 1 when
  the pixel is dark and opaque enough.
\<close>

definition buildMask :: "Rgba list \<Rightarrow> nat \<Rightarrow> nat \<Rightarrow> nat list" where
  "buildMask pixels pWidth pHeight =
     map (\<lambda>idx. if idx < length pixels \<and> luminance (pixels ! idx) < 200 \<and> alpha (pixels ! idx) > 50
                 then 1 else 0)
       [0..<pWidth * pHeight]"

text \<open>\<^verbatim>\<open>Math.round\<close> rounds halves up.\<close>

definition jsRound :: "real \<Rightarrow> int" where
  "jsRound v = \<lfloor>v + 1 / 2\<rfloor>"

text \<open>\<^verbatim>\<open>parseFloat(v.toFixed(2))\<close>: two decimals, halves away from zero.\<close>

definition toFixed2 :: "real \<Rightarrow> real" where
  "toFixed2 v = (if v < 0 then - (real_of_int \<lfloor>- v * 100 + 1 / 2\<rfloor> / 100)
                 else real_of_int \<lfloor>v * 100 + 1 / 2\<rfloor> / 100)"

text \<open>Lines 419-427: the opacity at the sampled pixel.\<close>

definition sampleOpacity :: "Rgba list \<Rightarrow> nat \<Rightarrow> int \<Rightarrow> int \<Rightarrow> real" where
  "sampleOpacity pixels pWidth cxInt cyInt =
     (let sampleIdx = cyInt * int pWidth + cxInt
      in if sampleIdx \<ge> 0 \<and> sampleIdx < int (length pixels) then
           let p = pixels ! nat sampleIdx;
               al = real (alpha p) / 255.0;
               lum = luminance p;
               darkness = 1.0 - (lum / 255.0)
           in al * max 0.1 darkness
         else 1.0)"

text \<open>
  Lines 429-443: the thickness ray cast. \<open>hitBackground\<close> is one round of the loop over
  \<open>r\<close>: one of the four cells at distance \<open>r\<close> is outside the image or background. The loop
  runs for \<open>r\<close> from 1 to 19 and stops at the first hit; \<open>radius\<close> keeps its initial value 1
  when no round hits.
\<close>

definition hitBackground :: "nat list \<Rightarrow> nat \<Rightarrow> nat \<Rightarrow> int \<Rightarrow> int \<Rightarrow> nat \<Rightarrow> bool" where
  "hitBackground visited pWidth pHeight cxInt cyInt r =
     list_ex (\<lambda>c. \<not> inGrid pWidth pHeight c \<or> visited ! cellIndex pWidth c = 0)
       [(cxInt + int r, cyInt), (cxInt - int r, cyInt), (cxInt, cyInt + int r), (cxInt, cyInt - int r)]"

function raycastLoop :: "nat list \<Rightarrow> nat \<Rightarrow> nat \<Rightarrow> int \<Rightarrow> int \<Rightarrow> nat \<Rightarrow> nat \<Rightarrow> nat" where
  "raycastLoop visited pWidth pHeight cxInt cyInt radius r =
     (if r < 20 then
        if hitBackground visited pWidth pHeight cxInt cyInt r then r
        else raycastLoop visited pWidth pHeight cxInt cyInt radius (Suc r)
      else radius)"
  by pat_completeness auto
termination
  by (relation "measure (\<lambda>(visited, pWidth, pHeight, cxInt, cyInt, radius, r). 20 - r)") auto

declare raycastLoop.simps [simp del]

definition raycastRadius :: "nat list \<Rightarrow> nat \<Rightarrow> nat \<Rightarrow> int \<Rightarrow> int \<Rightarrow> nat" where
  "raycastRadius visited pWidth pHeight cxInt cyInt =
     raycastLoop visited pWidth pHeight cxInt cyInt 1 1"

definition thicknessNorm :: "nat \<Rightarrow> nat \<Rightarrow> real" where
  "thicknessNorm radius pWidth = ((real radius * 2) / real pWidth) * 10000"

text \<open>Lines 453-470: the cells of the pen disk (radius 3) that are unconsumed ink become 2.\<close>

definition penOffsets :: "(int \<times> int) list" where
  "penOffsets = concat (map (\<lambda>dy. map (\<lambda>dx. (dx, dy)) (filter (\<lambda>dx. dx * dx + dy * dy \<le> 3 * 3) [-3..3]))
                          [-3..3])"

definition consumeInk :: "nat list \<Rightarrow> nat \<Rightarrow> nat \<Rightarrow> int \<Rightarrow> int \<Rightarrow> nat list" where
  "consumeInk visited pWidth pHeight cx cy =
     foldl (\<lambda>v d.
              let n = (cx + fst d, cy + snd d)
              in if inGrid pWidth pHeight n then
                   let nIdx = cellIndex pWidth n
                   in if v ! nIdx = 1 then v[nIdx := 2] else v
                 else v)
       visited penOffsets"

text \<open>
  Lines 472-494: the centroid of the unconsumed ink in the search window, or \<open>None\<close> when the
  window has none (\<^verbatim>\<open>tracing = false\<close>).
\<close>

definition centroid :: "nat list \<Rightarrow> nat \<Rightarrow> nat \<Rightarrow> int \<Rightarrow> int \<Rightarrow> (real \<times> real) option" where
  "centroid visited pWidth pHeight cx cy =
     (let minX = max 0 (cx - 5); maxX = min (int pWidth) (cx + 5);
          minY = max 0 (cy - 5); maxY = min (int pHeight) (cy + 5);
          cells = concat (map (\<lambda>y. map (\<lambda>x. (x, y))
                                     (filter (\<lambda>x. visited ! cellIndex pWidth (x, y) = 1)
                                        [minX..maxX - 1]))
                            [minY..maxY - 1]);
          sumX = sum_list (map fst cells);
          sumY = sum_list (map snd cells);
          cnt = length cells
      in if cnt > 0 then Some (real_of_int sumX / real cnt, real_of_int sumY / real cnt)
         else None)"

text \<open>
  The walk of one stroke (lines 411-495). The state is the position, \<^verbatim>\<open>tracing\<close>,
  \<^verbatim>\<open>strokeSafety\<close>, the points so far and the mask; the result is the points, the mask and
  the final \<^verbatim>\<open>strokeSafety\<close>, which counts the rounds.
\<close>

record WalkState =
  currentPos :: "real \<times> real"
  tracing :: bool
  strokeSafety :: nat
  strokePoints :: "RawPoint list"
  w_visited :: "nat list"

definition walkStep :: "Rgba list \<Rightarrow> nat \<Rightarrow> nat \<Rightarrow> WalkState \<Rightarrow> WalkState" where
  "walkStep pixels pWidth pHeight st =
     (let pos = currentPos st;
          cxInt = jsRound (fst pos);
          cyInt = jsRound (snd pos);
          opac = sampleOpacity pixels pWidth cxInt cyInt;
          radius = raycastRadius (w_visited st) pWidth pHeight cxInt cyInt;
          point = \<lparr>px = real_of_int (jsRound ((fst pos / real pWidth) * 10000)),
                   py = real_of_int (jsRound ((snd pos / real pHeight) * 10000)),
                   pz = Some (thicknessNorm radius pWidth),
                   pa = Some (toFixed2 opac)\<rparr>;
          consumed = consumeInk (w_visited st) pWidth pHeight cxInt cyInt
      in case centroid consumed pWidth pHeight cxInt cyInt of
           Some c \<Rightarrow> \<lparr>currentPos = c, tracing = True, strokeSafety = Suc (strokeSafety st),
                      strokePoints = strokePoints st @ [point], w_visited = consumed\<rparr>
         | None \<Rightarrow> \<lparr>currentPos = pos, tracing = False, strokeSafety = Suc (strokeSafety st),
                    strokePoints = strokePoints st @ [point], w_visited = consumed\<rparr>)"

lemma walkStep_safety: "strokeSafety (walkStep pixels pWidth pHeight st) = Suc (strokeSafety st)"
  by (simp add: walkStep_def Let_def split: option.splits)

function walkLoop :: "Rgba list \<Rightarrow> nat \<Rightarrow> nat \<Rightarrow> WalkState \<Rightarrow> WalkState" where
  "walkLoop pixels pWidth pHeight st =
     (if tracing st \<and> strokeSafety st < 10000
      then walkLoop pixels pWidth pHeight (walkStep pixels pWidth pHeight st)
      else st)"
  by pat_completeness auto
termination
  by (relation "measure (\<lambda>(pixels, pWidth, pHeight, st). 10000 - strokeSafety st)")
    (auto simp: walkStep_safety)

declare walkLoop.simps [simp del]

text \<open>Lines 393-399: the scan for the next unconsumed ink cell; it returns \<^verbatim>\<open>startIdx\<close> and
  the new \<^verbatim>\<open>globalSearchIdx\<close>.\<close>

function scanSeed :: "nat list \<Rightarrow> nat \<Rightarrow> nat option \<times> nat" where
  "scanSeed visited globalSearchIdx =
     (if globalSearchIdx < length visited then
        if visited ! globalSearchIdx = 1 then (Some globalSearchIdx, globalSearchIdx)
        else scanSeed visited (Suc globalSearchIdx)
      else (None, globalSearchIdx))"
  by pat_completeness auto
termination
  by (relation "measure (\<lambda>(visited, globalSearchIdx). length visited - globalSearchIdx)") auto

declare scanSeed.simps [simp del]

text \<open>
  The stroke-seeking loop (lines 389-500). The state is \<^verbatim>\<open>globalSearchIdx\<close>, \<^verbatim>\<open>active\<close>,
  \<^verbatim>\<open>safetyCounter\<close>, the mask and the raw strokes.
\<close>

record SeekState =
  globalSearchIdx :: nat
  active :: bool
  safetyCounter :: nat
  s_visited :: "nat list"
  rawStrokes :: "Stroke list"

definition getXY :: "nat \<Rightarrow> nat \<Rightarrow> real \<times> real" where
  "getXY pWidth idx = (real (idx mod pWidth), real (idx div pWidth))"

text \<open>The state in which the walk of a stroke starts (lines 406-409).\<close>

definition walkStart :: "real \<times> real \<Rightarrow> nat list \<Rightarrow> WalkState" where
  "walkStart pos visited =
     \<lparr>currentPos = pos, tracing = True, strokeSafety = 0, strokePoints = [], w_visited = visited\<rparr>"

definition seekStep :: "Rgba list \<Rightarrow> nat \<Rightarrow> nat \<Rightarrow> SeekState \<Rightarrow> SeekState" where
  "seekStep pixels pWidth pHeight st =
     (let found = scanSeed (s_visited st) (globalSearchIdx st)
      in case fst found of
           None \<Rightarrow> st\<lparr>globalSearchIdx := snd found, active := False,
                      safetyCounter := Suc (safetyCounter st)\<rparr>
         | Some startIdx \<Rightarrow>
             let walked = walkLoop pixels pWidth pHeight
                            (walkStart (getXY pWidth startIdx) (s_visited st))
             in \<lparr>globalSearchIdx = snd found, active = True,
                 safetyCounter = Suc (safetyCounter st),
                 s_visited = w_visited walked,
                 rawStrokes = (if length (strokePoints walked) > 3
                               then rawStrokes st @ [strokeOf (strokePoints walked)]
                               else rawStrokes st)\<rparr>)"

lemma seekStep_safety: "safetyCounter (seekStep pixels pWidth pHeight st) = Suc (safetyCounter st)"
  by (simp add: seekStep_def Let_def split: option.splits)

function seekLoop :: "Rgba list \<Rightarrow> nat \<Rightarrow> nat \<Rightarrow> SeekState \<Rightarrow> SeekState" where
  "seekLoop pixels pWidth pHeight st =
     (if active st \<and> safetyCounter st < 10000
      then seekLoop pixels pWidth pHeight (seekStep pixels pWidth pHeight st)
      else st)"
  by pat_completeness auto
termination
  by (relation "measure (\<lambda>(pixels, pWidth, pHeight, st). 10000 - safetyCounter st)")
    (auto simp: seekStep_safety)

declare seekLoop.simps [simp del]

definition extractStrokes :: "Rgba list \<Rightarrow> nat \<Rightarrow> nat \<Rightarrow> nat list \<Rightarrow> SeekState" where
  "extractStrokes pixels pWidth pHeight visited =
     seekLoop pixels pWidth pHeight
       \<lparr>globalSearchIdx = 0, active = True, safetyCounter = 0, s_visited = visited, rawStrokes = []\<rparr>"

section \<open>Properties of a despeckled mask\<close>

text \<open>
  A cell is ink when it holds 1. Two cells of the \<open>w\<close> by \<open>h\<close> grid are 4-adjacent when
  they are next to each other in a row or in a column. The connected component of a cell is
  what can be reached from it by steps between 4-adjacent ink cells.
\<close>

definition ink :: "nat list \<Rightarrow> nat \<Rightarrow> bool" where
  "ink data i \<longleftrightarrow> i < length data \<and> data ! i = 1"

definition adjacent4 :: "nat \<Rightarrow> nat \<Rightarrow> nat \<Rightarrow> nat \<Rightarrow> bool" where
  "adjacent4 w h a b \<longleftrightarrow>
     a < w * h \<and> b < w * h \<and>
     ((a div w = b div w \<and> (a mod w = Suc (b mod w) \<or> b mod w = Suc (a mod w)))
      \<or> (a mod w = b mod w \<and> (a div w = Suc (b div w) \<or> b div w = Suc (a div w))))"

definition inkEdges :: "nat list \<Rightarrow> nat \<Rightarrow> nat \<Rightarrow> (nat \<times> nat) set" where
  "inkEdges data w h = {(a, b). ink data a \<and> ink data b \<and> adjacent4 w h a b}"

definition component :: "nat list \<Rightarrow> nat \<Rightarrow> nat \<Rightarrow> nat \<Rightarrow> nat set" where
  "component data w h i = {j. (i, j) \<in> (inkEdges data w h)\<^sup>*}"

definition inkCount :: "nat list \<Rightarrow> nat" where
  "inkCount data = length (filter (\<lambda>v. v = 1) data)"

subsection \<open>Invariants used in the proofs\<close>

text \<open>
  For one flood fill, started at cell \<open>i\<close> with the marks \<open>seen0\<close>: the ink cells not yet
  seen, the steps between them, and what can be reached from \<open>i\<close> by such steps.
\<close>

definition unseenInk :: "nat list \<Rightarrow> nat list \<Rightarrow> nat set" where
  "unseenInk data seen0 = {j. ink data j \<and> j < length seen0 \<and> seen0 ! j = 0}"

definition unseenEdges :: "nat list \<Rightarrow> nat \<Rightarrow> nat \<Rightarrow> nat list \<Rightarrow> (nat \<times> nat) set" where
  "unseenEdges data w h seen0 =
     {(a, b). a \<in> unseenInk data seen0 \<and> b \<in> unseenInk data seen0 \<and> adjacent4 w h a b}"

definition reach :: "nat list \<Rightarrow> nat \<Rightarrow> nat \<Rightarrow> nat list \<Rightarrow> nat \<Rightarrow> nat set" where
  "reach data w h seen0 i = {j. (i, j) \<in> (unseenEdges data w h seen0)\<^sup>*}"

text \<open>
  The state \<open>(seen, stack, componentIndices)\<close> of a flood fill: both lists are equal and
  hold distinct reachable cells, and the marks are those of \<open>seen0\<close> with the stacked cells
  added. \<open>fillInv\<close> adds the loop counters: every neighbour of a cell before \<open>ptr\<close> that is
  unseen ink is on the stack.
\<close>

definition fillBase ::
  "nat list \<Rightarrow> nat \<Rightarrow> nat \<Rightarrow> nat list \<Rightarrow> nat \<Rightarrow> nat list \<times> nat list \<times> nat list \<Rightarrow> bool" where
  "fillBase data w h seen0 i st \<longleftrightarrow>
     snd (snd st) = fst (snd st) \<and> distinct (fst (snd st))
     \<and> set (fst (snd st)) \<subseteq> reach data w h seen0 i
     \<and> length (fst st) = length seen0
     \<and> (\<forall>j < length seen0. fst st ! j = (if j \<in> set (fst (snd st)) then 1 else seen0 ! j))"

definition fillInv ::
  "nat list \<Rightarrow> nat \<Rightarrow> nat \<Rightarrow> nat list \<Rightarrow> nat \<Rightarrow> nat \<Rightarrow> nat \<Rightarrow> nat list \<times> nat list \<times> nat list \<Rightarrow> bool" where
  "fillInv data w h seen0 i ptr cnt st \<longleftrightarrow>
     fillBase data w h seen0 i st \<and> cnt = ptr \<and> ptr \<le> length (fst (snd st))
     \<and> i \<in> set (fst (snd st))
     \<and> (\<forall>a \<in> set (take ptr (fst (snd st))). \<forall>b \<in> unseenInk data seen0.
           adjacent4 w h a b \<longrightarrow> b \<in> set (fst (snd st)))"

text \<open>
  The outer loop before index \<open>k\<close>: a cell is marked when it is ink and its component has a
  cell below \<open>k\<close>; the marked cells of components smaller than \<open>minSize\<close> are zeroed and
  nothing else has changed.
\<close>

definition early :: "nat list \<Rightarrow> nat \<Rightarrow> nat \<Rightarrow> nat \<Rightarrow> nat \<Rightarrow> bool" where
  "early data0 w h k j \<longleftrightarrow> ink data0 j \<and> (\<exists>m < k. m \<in> component data0 w h j)"

definition outerInv ::
  "nat list \<Rightarrow> nat \<Rightarrow> nat \<Rightarrow> nat \<Rightarrow> nat \<Rightarrow> nat list \<times> nat list \<Rightarrow> bool" where
  "outerInv data0 w h minSize k ds \<longleftrightarrow>
     length (fst ds) = length data0 \<and> length (snd ds) = length data0
     \<and> (\<forall>j < length data0. snd ds ! j = (if early data0 w h k j then 1 else 0))
     \<and> (\<forall>j < length data0. fst ds ! j =
           (if early data0 w h k j \<and> card (component data0 w h j) < minSize then 0 else data0 ! j))"

subsection \<open>Concrete inputs\<close>

text \<open>
  A mask 5 wide and 9 high: three rows of ink (a component of 15 cells), a row of
  background, five rows of ink (a component of 25 cells).
\<close>

definition maskTwoBlobs :: "nat list" where
  "maskTwoBlobs = replicate 15 1 @ replicate 5 0 @ replicate 25 1"

section \<open>localTracer.ts: post-processing and the whole tracer\<close>

text \<open>\<^verbatim>\<open>smoothPoints\<close> (lines 11-41): a weighted average over the interior points.\<close>

definition smoothAttr :: "real option \<Rightarrow> real option \<Rightarrow> real option \<Rightarrow> real option" where
  "smoothAttr prev cur nxt =
     (case (cur, prev, nxt) of
        (Some c, Some p, Some n) \<Rightarrow> Some (0.1 * p + 0.8 * c + 0.1 * n)
      | _ \<Rightarrow> cur)"

definition smoothPoints :: "RawPoint list \<Rightarrow> RawPoint list" where
  "smoothPoints pts =
     (if length pts < 3 then pts
      else [hd pts]
           @ map (\<lambda>i. let prev = pts ! (i - 1); cur = pts ! i; nxt = pts ! (i + 1)
                       in \<lparr>px = real_of_int (jsRound (0.1 * px prev + 0.8 * px cur + 0.1 * px nxt)),
                           py = real_of_int (jsRound (0.1 * py prev + 0.8 * py cur + 0.1 * py nxt)),
                           pz = smoothAttr (pz prev) (pz cur) (pz nxt),
                           pa = smoothAttr (pa prev) (pa cur) (pa nxt)\<rparr>)
               [1..<length pts - 1]
           @ [last pts])"

text \<open>
  \<^verbatim>\<open>filterJitter\<close> (lines 44-87). \<open>isSpike\<close> is the test that skips a point; \<open>jitterPass\<close> is one
  pass, and the second pass runs only when the first left three points or more.
\<close>

definition isSpike :: "RawPoint \<Rightarrow> RawPoint \<Rightarrow> RawPoint \<Rightarrow> bool" where
  "isSpike prev cur nxt =
     (let d1 = distSq prev cur; d2 = distSq cur nxt
      in if d1 < 2500 \<and> d2 < 2500 then
           let v1x = px cur - px prev; v1y = py cur - py prev;
               v2x = px nxt - px cur; v2y = py nxt - py cur;
               dot = v1x * v2x + v1y * v2y;
               magSq = d1 * d2
           in magSq > 0 \<and> dot < 0
         else False)"

definition jitterPass :: "RawPoint list \<Rightarrow> RawPoint list" where
  "jitterPass input =
     [hd input]
     @ map (\<lambda>i. input ! i)
         (filter (\<lambda>i. \<not> isSpike (input ! (i - 1)) (input ! i) (input ! (i + 1)))
            [1..<length input - 1])
     @ [last input]"

definition filterJitter :: "RawPoint list \<Rightarrow> RawPoint list" where
  "filterJitter pts =
     (if length pts < 3 then pts
      else let clean = jitterPass pts
           in if length clean < 3 then clean else jitterPass clean)"

text \<open>Lines 504-522: strokes whose ends are closer than 300 units are joined.\<close>

definition mergeStep :: "Stroke list \<times> Stroke \<Rightarrow> Stroke \<Rightarrow> Stroke list \<times> Stroke" where
  "mergeStep mc nextStroke =
     (let currentStroke = snd mc;
          lastPt = last (points currentStroke);
          firstPt = hd (points nextStroke)
      in if distSq lastPt firstPt < 300 * 300
         then (fst mc, currentStroke\<lparr>points := points currentStroke @ points nextStroke\<rparr>)
         else (fst mc @ [currentStroke], nextStroke))"

definition mergeStrokes :: "Stroke list \<Rightarrow> Stroke list" where
  "mergeStrokes orderedStrokes =
     (case orderedStrokes of
        [] \<Rightarrow> []
      | first # rest \<Rightarrow> (let mc = foldl mergeStep ([], first) rest in fst mc @ [snd mc]))"

text \<open>Lines 534-538: a point is kept when it is the first or farther than 10 units from the
  point before it in the unfiltered list.\<close>

definition dedupe :: "RawPoint list \<Rightarrow> RawPoint list" where
  "dedupe pts =
     map (\<lambda>i. pts ! i) (filter (\<lambda>i. i = 0 \<or> distSq (pts ! i) (pts ! (i - 1)) > 100) [0..<length pts])"

text \<open>
  The test for ink in a square neighbourhood of a cell, as lines 551-560 (radius 2) and
  lines 317-326 (radius 1) write it: the index is checked against the length of the mask
  only, not against the row.
\<close>

definition inkNear :: "nat list \<Rightarrow> nat \<Rightarrow> int \<Rightarrow> int \<Rightarrow> int \<Rightarrow> bool" where
  "inkNear bitmask width bX bY rad =
     list_ex (\<lambda>ry. list_ex (\<lambda>rx. let idx = (bY + ry) * int width + (bX + rx)
                                  in idx \<ge> 0 \<and> idx < int (length bitmask) \<and> bitmask ! nat idx > 0)
                      [- rad..rad])
       [- rad..rad]"

text \<open>Lines 542-564: interior points with no ink near them are dropped.\<close>

definition onInk :: "nat list \<Rightarrow> nat \<Rightarrow> nat \<Rightarrow> RawPoint list \<Rightarrow> RawPoint list" where
  "onInk visited pWidth pHeight deduped =
     (if length deduped > 0 then [hd deduped] else [])
     @ map (\<lambda>i. deduped ! i)
         (filter (\<lambda>i. let p = deduped ! i;
                          cx = \<lfloor>(px p / 10000) * real pWidth\<rfloor>;
                          cy = \<lfloor>(py p / 10000) * real pHeight\<rfloor>
                      in inkNear visited pWidth cx cy 2)
            [1..<length deduped - 1])
     @ (if length deduped > 1 then [last deduped] else [])"

text \<open>\<^verbatim>\<open>validateStrokeCoverage\<close> (lines 283-334).\<close>

definition segmentSamples :: "real \<Rightarrow> real \<Rightarrow> RawPoint \<Rightarrow> RawPoint \<Rightarrow> (real \<times> real) list" where
  "segmentSamples scaleX outputScale p1 p2 =
     (let dist = sqrt (distSq p1 p2);
          stepSize = 2 / scaleX;
          steps = nat \<lceil>dist / max 1 (stepSize * outputScale)\<rceil>
      in map (\<lambda>j. let t = (if steps = 0 then 0 else real j / real steps)
                  in (px p1 + (px p2 - px p1) * t, py p1 + (py p2 - py p1) * t))
           [0..<Suc steps])"

definition validateStrokeCoverage :: "Stroke \<Rightarrow> nat list \<Rightarrow> nat \<Rightarrow> nat \<Rightarrow> real \<Rightarrow> bool" where
  "validateStrokeCoverage strk bitmask width height outputScale =
     (if length (points strk) < 2 then True
      else
        let scaleX = real width / outputScale;
            scaleY = real height / outputScale;
            samples = concat (map (\<lambda>pq. segmentSamples scaleX outputScale (fst pq) (snd pq))
                                (zip (points strk) (tl (points strk))));
            cells = map (\<lambda>xy. (\<lfloor>fst xy * scaleX\<rfloor>, \<lfloor>snd xy * scaleY\<rfloor>)) samples;
            checked = filter (\<lambda>c. inGrid width height c) cells;
            checks = length checked;
            hits = length (filter (\<lambda>c. inkNear bitmask width (fst c) (snd c) 1) checked)
        in if checks = 0 then False else real hits / real checks \<ge> 0.55)"

text \<open>
  The body of the loop of lines 533-596 for one smoothed stroke: \<open>None\<close> when the stroke is
  skipped or fails the coverage test.
\<close>

definition finishStroke :: "nat list \<Rightarrow> nat \<Rightarrow> nat \<Rightarrow> Stroke \<Rightarrow> Stroke option" where
  "finishStroke visited pWidth pHeight strk =
     (let deduped = dedupe (points strk)
      in if length deduped < 3 then None
         else
           let onInkPoints = onInk visited pWidth pHeight deduped;
               jitterFreePoints = filterJitter onInkPoints
           in if length jitterFreePoints < 3 then None
              else
                let finalPoints = simplifyPoints jitterFreePoints;
                    candidateStroke = strk\<lparr>points := finalPoints\<rparr>
                in if validateStrokeCoverage candidateStroke visited pWidth pHeight 10000
                   then Some candidateStroke else None)"

text \<open>
  \<^verbatim>\<open>analyzeSignatureLocal\<close> (lines 336-614). The loaded image is given by its size, by
  whether the canvas has a 2D context, and by the pixels the canvas returns for the image
  drawn at the processing size; \<open>None\<close> is an image that failed to load. The promise
  resolves with \<open>Inr\<close> and rejects with \<open>Inl\<close>. \<^verbatim>\<open>getImageData\<close> throws when the processing
  width or height is zero.
\<close>

record LoadedImage =
  img_width :: nat
  img_height :: nat
  hasContext :: bool
  canvasPixels :: "Rgba list"

definition processWidth :: "LoadedImage \<Rightarrow> nat" where
  "processWidth img =
     (let scale = min 1 (1200 / real (img_width img)) in nat \<lfloor>real (img_width img) * scale\<rfloor>)"

definition processHeight :: "LoadedImage \<Rightarrow> nat" where
  "processHeight img =
     (let scale = min 1 (1200 / real (img_width img)) in nat \<lfloor>real (img_height img) * scale\<rfloor>)"

definition traceStrokes :: "Rgba list \<Rightarrow> nat \<Rightarrow> nat \<Rightarrow> error + Stroke list" where
  "traceStrokes pixels pWidth pHeight =
     (let visited0 = buildMask pixels pWidth pHeight;
          despeckled = despeckleBitmask visited0 pWidth pHeight 20;
          sought = extractStrokes pixels pWidth pHeight despeckled;
          visited = s_visited sought
      in case optimizeStrokeOrder (rawStrokes sought) of
           Inl e \<Rightarrow> Inl e
         | Inr orderedStrokes \<Rightarrow>
             let mergedStrokes = mergeStrokes orderedStrokes;
                 smoothedStrokes = map (\<lambda>s. s\<lparr>points := smoothPoints (points s)\<rparr>) mergedStrokes
             in Inr (List.map_filter (finishStroke visited pWidth pHeight) smoothedStrokes))"

definition analyzeSignatureLocal :: "LoadedImage option \<Rightarrow> error + SignatureAnalysis" where
  "analyzeSignatureLocal loaded =
     (case loaded of
        None \<Rightarrow> Inl LoadFailed
      | Some img \<Rightarrow>
          let pWidth = processWidth img; pHeight = processHeight img
          in if \<not> hasContext img then Inl NoContext
             else if pWidth = 0 \<or> pHeight = 0 then Inl IndexSizeError
             else case traceStrokes (canvasPixels img) pWidth pHeight of
                    Inl e \<Rightarrow> Inl e
                  | Inr finalStrokes \<Rightarrow>
                      Inr \<lparr>strokes = finalStrokes,
                           original_size = (img_width img, img_height img)\<rparr>)"

section \<open>Properties of the tracer\<close>

text \<open>A pixel whose cell of the mask is background: not both dark and opaque enough.\<close>

definition isBackground :: "Rgba \<Rightarrow> bool" where
  "isBackground p \<longleftrightarrow> \<not> (luminance p < 200 \<and> alpha p > 50)"

text \<open>
  The thickness in the specification's words. A cell blocks a ray when it is outside the
  image or background; the length of the ray from \<open>(cx, cy)\<close> in direction \<open>d\<close> is the
  distance to the first cell that blocks it (a ray from inside the image leaves the image
  after at most \<open>pWidth + pHeight\<close> cells); the shortest ray is the shortest of the four
  axis directions.
\<close>

definition blockedCell :: "nat list \<Rightarrow> nat \<Rightarrow> nat \<Rightarrow> int \<times> int \<Rightarrow> bool" where
  "blockedCell visited pWidth pHeight c \<longleftrightarrow>
     \<not> inGrid pWidth pHeight c \<or> visited ! cellIndex pWidth c = 0"

definition rayLength :: "nat list \<Rightarrow> nat \<Rightarrow> nat \<Rightarrow> int \<Rightarrow> int \<Rightarrow> int \<times> int \<Rightarrow> nat" where
  "rayLength visited pWidth pHeight cx cy d =
     Suc (length (takeWhile
                    (\<lambda>r. \<not> blockedCell visited pWidth pHeight (cx + int r * fst d, cy + int r * snd d))
                    [1..<pWidth + pHeight + 2]))"

definition shortestRay :: "nat list \<Rightarrow> nat \<Rightarrow> nat \<Rightarrow> int \<Rightarrow> int \<Rightarrow> nat" where
  "shortestRay visited pWidth pHeight cx cy =
     min (min (rayLength visited pWidth pHeight cx cy (1, 0))
              (rayLength visited pWidth pHeight cx cy (- 1, 0)))
         (min (rayLength visited pWidth pHeight cx cy (0, 1))
              (rayLength visited pWidth pHeight cx cy (0, - 1)))"

subsection \<open>Invariants used in the proofs\<close>

definition blockedAt :: "nat list \<Rightarrow> nat \<Rightarrow> nat \<Rightarrow> int \<Rightarrow> int \<Rightarrow> int \<times> int \<Rightarrow> nat \<Rightarrow> bool" where
  "blockedAt visited pWidth pHeight cx cy d r =
     blockedCell visited pWidth pHeight (cx + int r * fst d, cy + int r * snd d)"

definition seekInv :: "SeekState \<Rightarrow> bool" where
  "seekInv st \<longleftrightarrow>
     safetyCounter st \<le> 10000 \<and> length (rawStrokes st) \<le> safetyCounter st
     \<and> list_all (\<lambda>s. 3 < length (points s) \<and> length (points s) \<le> 10000) (rawStrokes st)"

subsection \<open>Concrete inputs\<close>

text \<open>A 2 by 2 image of white, opaque pixels.\<close>

definition whitePixel :: Rgba where
  "whitePixel = \<lparr>red = 255, green = 255, blue = 255, alpha = 255\<rparr>"

definition blankImage :: LoadedImage where
  "blankImage = \<lparr>img_width = 2, img_height = 2, hasContext = True,
                  canvasPixels = replicate 4 whitePixel\<rparr>"

text \<open>
  A mask of 41 by 41 cells that are all ink: the 840 cells before the cell \<open>(20, 20)\<close> are
  consumed, the others are not, so the next stroke is seeded at \<open>(20, 20)\<close>, 21 cells from
  the border in each direction.
\<close>

definition thickMask :: "nat list" where
  "thickMask = replicate 840 2 @ replicate 841 1"

section \<open>motionPlanner.ts\<close>

text \<open>
  The planner reads five fields of the style object. The interface \<^verbatim>\<open>HandwritingStyle\<close>
  declares each of them as a number; at run time a field of an object can still be missing,
  and reading it gives \<^verbatim>\<open>undefined\<close>, so each field is an \<open>option\<close>. The other fields of
  the interface are never read by the planner and are left out.
\<close>

record StyleObject =
  base_ms_per_px :: "real option"
  pressure_scale :: "real option"
  inertia_factor :: "real option"
  micro_tremor_amp_px :: "real option"
  micro_tremor_freq_hz :: "real option"

text \<open>
  Arithmetic on \<^verbatim>\<open>undefined\<close> gives NaN, which then spreads through the clock, so the
  timestamps and the displaced coordinates are numbers or NaN. Every comparison with NaN is
  false.
\<close>

datatype jsnum = NaN | Num real

fun jsplus :: "jsnum \<Rightarrow> jsnum \<Rightarrow> jsnum" where
  "jsplus (Num u) (Num v) = Num (u + v)"
| "jsplus _ _ = NaN"

fun jsle :: "jsnum \<Rightarrow> jsnum \<Rightarrow> bool" where
  "jsle (Num u) (Num v) = (u \<le> v)"
| "jsle _ _ = False"

fun isNum :: "jsnum \<Rightarrow> bool" where
  "isNum (Num u) = True"
| "isNum NaN = False"

record PhysicsPoint =
  ph_x :: jsnum
  ph_y :: jsnum
  time :: jsnum
  lineWidth :: real
  opacity :: real

record StrokePath =
  path_id :: string
  path_points :: "PhysicsPoint list"
  startTime :: jsnum
  endTime :: jsnum

definition distP :: "RawPoint \<Rightarrow> RawPoint \<Rightarrow> real" where
  "distP p1 p2 = (let dx = px p1 - px p2; dy = py p1 - py p2 in sqrt (dx * dx + dy * dy))"

definition filterRedundantPoints :: "RawPoint list \<Rightarrow> RawPoint list" where
  "filterRedundantPoints pts =
     (if length pts < 2 then pts
      else
        let result =
              foldl (\<lambda>res cur.
                       let prev = last res;
                           d2 = (px cur - px prev)\<^sup>2 + (py cur - py prev)\<^sup>2
                       in if d2 > 0.1 then res @ [cur] else res)
                [hd pts] (tl pts);
            lastSrc = last pts;
            lastRes = last result
        in if px lastRes \<noteq> px lastSrc \<or> py lastRes \<noteq> py lastSrc
           then result @ [lastSrc] else result)"

text \<open>
  Lines 49-56. With no style the constants are the fixed defaults. With a style object each
  constant is what the field holds, \<^verbatim>\<open>undefined\<close> included; only \<^verbatim>\<open>pressure_scale\<close> has a
  fallback (\<^verbatim>\<open>|| 1\<close>, which also replaces 0).
\<close>

record PhysicsConstants =
  baseMsPerPx :: "real option"
  baseWidthScale :: real
  fallbackWidth :: real
  inertia :: "real option"
  tremorAmp :: "real option"
  tremorFreq :: "real option"

definition physicsConstants :: "StyleObject option \<Rightarrow> PhysicsConstants" where
  "physicsConstants style =
     (let bws = (case style of
                   None \<Rightarrow> 1
                 | Some s \<Rightarrow> (case pressure_scale s of
                               None \<Rightarrow> 1
                             | Some v \<Rightarrow> if v = 0 then 1 else v))
      in \<lparr>baseMsPerPx = (case style of None \<Rightarrow> Some 1.2 | Some s \<Rightarrow> base_ms_per_px s),
          baseWidthScale = bws,
          fallbackWidth = 1.5 * bws,
          inertia = (case style of None \<Rightarrow> Some 0 | Some s \<Rightarrow> inertia_factor s),
          tremorAmp = (case style of None \<Rightarrow> Some 0 | Some s \<Rightarrow> micro_tremor_amp_px s),
          tremorFreq = (case style of None \<Rightarrow> Some 0 | Some s \<Rightarrow> micro_tremor_freq_hz s)\<rparr>)"

definition mapPoint :: "real \<Rightarrow> real \<Rightarrow> RawPoint \<Rightarrow> RawPoint" where
  "mapPoint canvasWidth canvasHeight p =
     \<lparr>px = (px p / 10000) * canvasWidth, py = (py p / 10000) * canvasHeight,
      pz = pz p, pa = pa p\<rparr>"

text \<open>
  The tremor displacement at a clock value: \<^verbatim>\<open>tremorAmp > 0 && tremorFreq > 0\<close> is false when
  either is undefined.
\<close>

definition tremor :: "PhysicsConstants \<Rightarrow> jsnum \<Rightarrow> jsnum \<times> jsnum" where
  "tremor c t =
     (case (tremorAmp c, tremorFreq c) of
        (Some amp, Some freq) \<Rightarrow>
          if amp > 0 \<and> freq > 0 then
            (case t of
               NaN \<Rightarrow> (NaN, NaN)
             | Num tm \<Rightarrow>
                 let tSec = tm / 1000
                 in (Num (amp * sin (tSec * freq * pi * 2)), Num (amp * cos (tSec * freq * pi * 2))))
          else (Num 0, Num 0)
      | _ \<Rightarrow> (Num 0, Num 0))"

text \<open>Lines 127-144: the slow-down at a turn, from the third point of a stroke on.\<close>

definition speedPenalty :: "PhysicsConstants \<Rightarrow> RawPoint list \<Rightarrow> nat \<Rightarrow> real" where
  "speedPenalty c pp i =
     (case inertia c of
        None \<Rightarrow> 1
      | Some iv \<Rightarrow>
          if i > 1 \<and> iv > 0 then
            let p = pp ! i; prev = pp ! (i - 1); prevPrev = pp ! (i - 2);
                v1x = px prev - px prevPrev; v1y = py prev - py prevPrev;
                v2x = px p - px prev; v2y = py p - py prev;
                mag1 = sqrt (v1x * v1x + v1y * v1y);
                mag2 = sqrt (v2x * v2x + v2y * v2y)
            in if mag1 > 0.001 \<and> mag2 > 0.001 then
                 let dot = v1x * v2x + v1y * v2y;
                     cosTheta = max (-1) (min 1 (dot / (mag1 * mag2)));
                     angle = arccos cosTheta
                 in 1 + angle * iv
               else 1
          else 1)"

text \<open>
  Line 146: \<^verbatim>\<open>Math.max(0.01, d * baseMsPerPx * speedPenalty)\<close>; with \<^verbatim>\<open>baseMsPerPx\<close> undefined
  the product is NaN and so is the maximum.
\<close>

definition segmentDt :: "PhysicsConstants \<Rightarrow> real \<Rightarrow> real \<Rightarrow> jsnum" where
  "segmentDt c d penalty =
     (case baseMsPerPx c of None \<Rightarrow> NaN | Some b \<Rightarrow> Num (max 0.01 (d * b * penalty)))"

text \<open>
  One round of the loop over \<open>processedPoints\<close> (lines 89-162); the state is
  \<open>(physicsPoints, currentTime)\<close>.
\<close>

definition traverseStep ::
  "PhysicsConstants \<Rightarrow> real \<Rightarrow> RawPoint list \<Rightarrow> PhysicsPoint list \<times> jsnum \<Rightarrow> nat
     \<Rightarrow> PhysicsPoint list \<times> jsnum" where
  "traverseStep c canvasWidth pp st i =
     (let physicsPoints = fst st; now = snd st;
          p = pp ! i;
          pointWidth = (case pz p of
                          None \<Rightarrow> fallbackWidth c
                        | Some z \<Rightarrow> (z / 10000) * canvasWidth * baseWidthScale c);
          pointOpacity = (case pa p of None \<Rightarrow> 1 | Some al \<Rightarrow> al)
      in if i = 0 then
           (physicsPoints @
              [\<lparr>ph_x = jsplus (Num (px p)) (fst (tremor c now)),
                ph_y = jsplus (Num (py p)) (snd (tremor c now)),
                time = now, lineWidth = pointWidth, opacity = pointOpacity\<rparr>],
            now)
         else
           let prev = pp ! (i - 1);
               d = distP p prev;
               dt = segmentDt c d (speedPenalty c pp i);
               later = jsplus now dt
           in (physicsPoints @
                 [\<lparr>ph_x = jsplus (Num (px p)) (fst (tremor c later)),
                   ph_y = jsplus (Num (py p)) (snd (tremor c later)),
                   time = later, lineWidth = pointWidth, opacity = pointOpacity\<rparr>],
               later))"

fun showNat :: "nat \<Rightarrow> string" where
  "showNat n =
     (if n < 10 then [''0123456789'' ! n]
      else showNat (n div 10) @ [''0123456789'' ! (n mod 10)])"

text \<open>
  The state of \<^verbatim>\<open>data.strokes.forEach\<close>: the paths pushed so far, the clock and the end of
  the previous emitted stroke.
\<close>

record PlanState =
  paths :: "StrokePath list"
  currentTime :: jsnum
  prevEndPos :: "RawPoint option"

text \<open>Lines 76-83: the clock after the pen lift.\<close>

definition penLift :: "RawPoint option \<Rightarrow> RawPoint \<Rightarrow> jsnum \<Rightarrow> jsnum" where
  "penLift prevEnd p0 now =
     (case prevEnd of
        None \<Rightarrow> now
      | Some q \<Rightarrow>
          let d = distP p0 q
          in if d > 30 then
               let liftTime = min (d * 0.5) 250 + 50 in jsplus now (Num liftTime)
             else now)"

definition planStroke ::
  "PhysicsConstants \<Rightarrow> real \<Rightarrow> real \<Rightarrow> PlanState \<Rightarrow> nat \<times> Stroke \<Rightarrow> PlanState" where
  "planStroke c canvasWidth canvasHeight st ixs =
     (let index = fst ixs; rawPoints = points (snd ixs)
      in if length rawPoints < 2 then st
         else
           let mappedPoints = map (mapPoint canvasWidth canvasHeight) rawPoints;
               processedPoints = filterRedundantPoints mappedPoints;
               start = penLift (prevEndPos st) (hd processedPoints) (currentTime st);
               walked = foldl (traverseStep c canvasWidth processedPoints) ([], start)
                          [0..<length processedPoints]
           in \<lparr>paths = paths st @
                  [\<lparr>path_id = ''stroke-'' @ showNat index, path_points = fst walked,
                    startTime = start, endTime = snd walked\<rparr>],
               currentTime = snd walked,
               prevEndPos = Some (last processedPoints)\<rparr>)"

text \<open>The state before the first stroke (lines 45-46 and 58).\<close>

definition planStart :: PlanState where
  "planStart = \<lparr>paths = [], currentTime = Num 0, prevEndPos = None\<rparr>"

text \<open>\<^verbatim>\<open>if (!data || !data.strokes) return []\<close>: a missing analysis is \<open>None\<close>.\<close>

definition generateMotionPlan ::
  "SignatureAnalysis option \<Rightarrow> real \<Rightarrow> real \<Rightarrow> StyleObject option \<Rightarrow> StrokePath list" where
  "generateMotionPlan data canvasWidth canvasHeight style =
     (case data of
        None \<Rightarrow> []
      | Some d \<Rightarrow>
          paths (foldl (planStroke (physicsConstants style) canvasWidth canvasHeight) planStart
                   (enumerate 0 (strokes d))))"

section \<open>Properties of a motion plan\<close>

text \<open>
  A path is well timed when it has a point, the times of consecutive points do not
  decrease, it starts at its first point's time, ends at its last point's time, and does
  not end before it starts. \<open>jsle\<close> holds between numbers only, so a well-timed path has
  no NaN timestamp.
\<close>

definition timedPath :: "StrokePath \<Rightarrow> bool" where
  "timedPath P \<longleftrightarrow>
     path_points P \<noteq> []
     \<and> successively (\<lambda>p q. jsle (time p) (time q)) (path_points P)
     \<and> startTime P = time (hd (path_points P))
     \<and> endTime P = time (last (path_points P))
     \<and> jsle (startTime P) (endTime P)"

text \<open>A plan is well timed when each path is and no path starts before the one before it ends.\<close>

definition timedPlan :: "StrokePath list \<Rightarrow> bool" where
  "timedPlan plan \<longleftrightarrow>
     list_all timedPath plan \<and> successively (\<lambda>P Q. jsle (endTime P) (startTime Q)) plan"

definition numericPlan :: "StrokePath list \<Rightarrow> bool" where
  "numericPlan plan =
     list_all (\<lambda>P. isNum (startTime P) \<and> isNum (endTime P)
                  \<and> list_all (\<lambda>p. isNum (time p)) (path_points P)) plan"

text \<open>
  The style argument has its pen speed: it is absent, or it is an object with the field
  \<^verbatim>\<open>base_ms_per_px\<close>. Every value of the interface \<^verbatim>\<open>HandwritingStyle\<close> has it.
\<close>

definition styleHasSpeed :: "StyleObject option \<Rightarrow> bool" where
  "styleHasSpeed style = (case style of None \<Rightarrow> True | Some s \<Rightarrow> base_ms_per_px s \<noteq> None)"

text \<open>
  Following the specification's words: the fixed defaults (\<^verbatim>\<open>base_ms_per_px = 1.2\<close>, width
  scale 1, no inertia, no tremor), and a style object with the fixed default put in for each
  missing field.
\<close>

definition defaultStyle :: StyleObject where
  "defaultStyle = \<lparr>base_ms_per_px = Some 1.2, pressure_scale = Some 1, inertia_factor = Some 0,
                    micro_tremor_amp_px = Some 0, micro_tremor_freq_hz = Some 0\<rparr>"

definition orDefault :: "real \<Rightarrow> real option \<Rightarrow> real option" where
  "orDefault d v = (case v of None \<Rightarrow> Some d | Some u \<Rightarrow> Some u)"

definition withDefaults :: "StyleObject \<Rightarrow> StyleObject" where
  "withDefaults s =
     \<lparr>base_ms_per_px = orDefault 1.2 (base_ms_per_px s),
      pressure_scale = orDefault 1 (pressure_scale s),
      inertia_factor = orDefault 0 (inertia_factor s),
      micro_tremor_amp_px = orDefault 0 (micro_tremor_amp_px s),
      micro_tremor_freq_hz = orDefault 0 (micro_tremor_freq_hz s)\<rparr>"

subsection \<open>Invariants used in the proofs\<close>

text \<open>
  The state of the loop over the points of a stroke, for a path that started at \<open>start\<close>:
  the times so far are numbers in ascending order, from \<open>start\<close> to the clock.
\<close>

definition timedFrom :: "jsnum \<Rightarrow> PhysicsPoint list \<times> jsnum \<Rightarrow> bool" where
  "timedFrom start st \<longleftrightarrow>
     (\<exists>ts. ts \<noteq> [] \<and> map time (fst st) = map Num ts \<and> sorted ts
           \<and> start = Num (hd ts) \<and> snd st = Num (last ts))"

text \<open>The state of the loop over the strokes: the clock is a number, not before the last path's end.\<close>

definition planInv :: "PlanState \<Rightarrow> bool" where
  "planInv st \<longleftrightarrow>
     isNum (currentTime st) \<and> timedPlan (paths st)
     \<and> (paths st \<noteq> [] \<longrightarrow> jsle (endTime (last (paths st))) (currentTime st))"

subsection \<open>Concrete inputs\<close>

text \<open>
  Two style objects with missing fields: one lacks only \<^verbatim>\<open>base_ms_per_px\<close>, the other has
  nothing else.
\<close>

definition noSpeedStyle :: StyleObject where
  "noSpeedStyle = \<lparr>base_ms_per_px = None, pressure_scale = Some 1, inertia_factor = Some 0,
                    micro_tremor_amp_px = Some 0, micro_tremor_freq_hz = Some 0\<rparr>"

definition speedOnlyStyle :: StyleObject where
  "speedOnlyStyle = \<lparr>base_ms_per_px = Some 1.2, pressure_scale = None, inertia_factor = None,
                      micro_tremor_amp_px = None, micro_tremor_freq_hz = None\<rparr>"

text \<open>
  Horizontal strokes on a 10000 by 10000 canvas, where the mapping to pixels is the
  identity: one from 0 to 100, and followers starting 31 and 29 pixels after it.
\<close>

definition strokeA :: Stroke where
  "strokeA = strokeOf [pt 0 0, pt 100 0]"

definition strokeB31 :: Stroke where
  "strokeB31 = strokeOf [pt 131 0, pt 200 0]"

definition strokeB29 :: Stroke where
  "strokeB29 = strokeOf [pt 129 0, pt 200 0]"

definition oneStroke :: SignatureAnalysis where
  "oneStroke = \<lparr>strokes = [strokeA], original_size = (10000, 10000)\<rparr>"

definition twoStrokes :: SignatureAnalysis where
  "twoStrokes = \<lparr>strokes = [strokeA, strokeB31], original_size = (10000, 10000)\<rparr>"

section \<open>Square roots of the concrete inputs\<close>

lemma sqrt_of_square: "0 \<le> r \<Longrightarrow> s = r * r \<Longrightarrow> sqrt s = r"
  by (simp add: real_sqrt_mult)

section \<open>The stroke order solver\<close>

subsection \<open>The greedy chaining uses every stroke once\<close>

lemma cloneStrokes_id: "cloneStrokes src = src"
  by (induction src) (simp_all add: cloneStrokes_def)

lemma getMeta_stroke: "m_stroke (getMeta s) = s"
  by (simp add: getMeta_def Let_def)

lemma map_getMeta_stroke: "map m_stroke (map getMeta xs) = xs"
  by (induction xs) (simp_all add: getMeta_stroke)

lemma bestStep_Some:
  "fst best \<noteq> None \<or> fst (snd best) = None \<Longrightarrow> fst (bestStep useBias cur best icand) \<noteq> None"
  by (auto simp: bestStep_def Let_def belowBest_def)

lemma bestFold_Some:
  "fst best \<noteq> None \<Longrightarrow> fst (foldl (bestStep useBias cur) best ics) \<noteq> None"
proof (induction ics arbitrary: best)
  case Nil
  then show ?case by simp
next
  case (Cons ic ics)
  have "fst (bestStep useBias cur best ic) \<noteq> None"
    using Cons.prems by (intro bestStep_Some) simp
  then show ?case using Cons.IH by simp
qed

lemma pickBest_Some:
  assumes "pool \<noteq> []"
  shows "fst (pickBest useBias cur pool) \<noteq> None"
proof -
  obtain c cs where p: "pool = c # cs" using assms by (cases pool) auto
  have "fst (bestStep useBias cur (None, None, False) (0, c)) \<noteq> None"
    by (rule bestStep_Some) simp
  then show ?thesis
    unfolding pickBest_def p by (simp add: bestFold_Some)
qed

lemma mset_removeAt:
  "k < length xs \<Longrightarrow> mset (removeAt k xs) + {#xs ! k#} = mset xs"
proof -
  assume k: "k < length xs"
  then have "xs = take k xs @ (xs ! k) # drop (Suc k) xs" by (simp add: id_take_nth_drop)
  then have "mset xs = mset (take k xs) + {#xs ! k#} + mset (drop (Suc k) xs)"
    by (metis mset.simps(2) mset_append add_mset_add_single union_assoc union_commute)
  then show ?thesis by (simp add: removeAt_def)
qed

lemma flipMeta_stroke: "m_stroke (flipMeta m) = reverseStroke (m_stroke m)"
  by (simp add: flipMeta_def)

lemma solveLoop_reordered:
  "\<exists>rest xs. solveLoop useBias cur pool result = result @ rest
      \<and> mset xs = mset (map m_stroke pool) \<and> list_all2 sameOrReversed rest xs"
proof (induction useBias cur pool result rule: solveLoop.induct)
  case (1 useBias cur pool result)
  show ?case
  proof (cases "pool = []")
    case True
    then show ?thesis by (subst solveLoop.simps) simp
  next
    case False
    obtain bi bc rb where pb: "pickBest useBias cur pool = (bi, bc, rb)"
      by (cases "pickBest useBias cur pool") auto
    from pickBest_Some [OF False, of useBias cur] pb obtain k where k: "bi = Some k" by auto
    have klt: "k < length pool" using pickBest_index pb k by blast
    define winner where "winner = (if rb then flipMeta (pool ! k) else pool ! k)"
    have step: "solveLoop useBias cur pool result
        = solveLoop useBias winner (removeAt k pool) (result @ [m_stroke winner])"
      by (subst solveLoop.simps) (simp add: False pb k winner_def Let_def)
    have pb': "(Some k, (bc, rb)) = pickBest useBias cur pool" using pb k by simp
    from "1.IH" [OF False pb' refl refl refl refl]
    obtain rest xs where ih: "solveLoop useBias winner (removeAt k pool) (result @ [m_stroke winner])
          = (result @ [m_stroke winner]) @ rest"
        "mset xs = mset (map m_stroke (removeAt k pool))" "list_all2 sameOrReversed rest xs"
      unfolding winner_def by auto
    have w: "sameOrReversed (m_stroke winner) (m_stroke (pool ! k))"
      by (simp add: winner_def sameOrReversed_def flipMeta_stroke)
    have "mset (m_stroke (pool ! k) # xs) = mset (map m_stroke pool)"
    proof -
      have "mset (map m_stroke pool) = image_mset m_stroke (mset (removeAt k pool) + {#pool ! k#})"
        using mset_removeAt [OF klt] by simp
      then show ?thesis using ih(2) by simp
    qed
    moreover have "list_all2 sameOrReversed (m_stroke winner # rest) (m_stroke (pool ! k) # xs)"
      using w ih(3) by simp
    moreover have "solveLoop useBias cur pool result = result @ (m_stroke winner # rest)"
      using step ih(1) by simp
    ultimately show ?thesis by blast
  qed
qed

lemma solve_reordered: "reorderedStrokes (solve inputStrokes useBias) inputStrokes"
proof (cases "inputStrokes = []")
  case True
  then show ?thesis by (simp add: solve_def reorderedStrokes_def)
next
  case False
  define sorted where "sorted = sort_key m_minX (map getMeta inputStrokes)"
  have "length sorted = length inputStrokes" by (simp add: sorted_def)
  then have ne: "sorted \<noteq> []" using False by auto
  define first where "first = hd sorted"
  define cur where "cur = (if px (m_end first) < px (m_start first) \<and> m_width first > m_height first
                      then flipMeta first else first)"
  have eq: "solve inputStrokes useBias = solveLoop useBias cur (tl sorted) [m_stroke cur]"
    using False by (simp add: solve_def Let_def sorted_def first_def cur_def)
  obtain rest xs where r: "solveLoop useBias cur (tl sorted) [m_stroke cur] = [m_stroke cur] @ rest"
      "mset xs = mset (map m_stroke (tl sorted))" "list_all2 sameOrReversed rest xs"
    using solveLoop_reordered by blast
  have c: "sameOrReversed (m_stroke cur) (m_stroke first)"
    by (simp add: cur_def sameOrReversed_def flipMeta_stroke)
  have a: "mset sorted = mset (map getMeta inputStrokes)" by (simp add: sorted_def)
  have "mset (map m_stroke sorted) = image_mset m_stroke (mset sorted)" by (rule mset_map)
  also have "\<dots> = image_mset m_stroke (mset (map getMeta inputStrokes))" by (simp only: a)
  also have "\<dots> = mset (map m_stroke (map getMeta inputStrokes))" by (rule mset_map [symmetric])
  also have "\<dots> = mset inputStrokes" by (simp only: map_getMeta_stroke)
  finally have "mset (map m_stroke sorted) = mset inputStrokes" .
  moreover have "sorted = first # tl sorted" using ne by (simp add: first_def)
  ultimately have "mset (m_stroke first # xs) = mset inputStrokes"
    using r(2) by (metis list.simps(9) mset.simps(2))
  moreover have "list_all2 sameOrReversed (m_stroke cur # rest) (m_stroke first # xs)"
    using c r(3) by simp
  ultimately have "\<exists>ys. mset ys = mset inputStrokes
      \<and> list_all2 sameOrReversed (m_stroke cur # rest) ys" by blast
  then show ?thesis unfolding reorderedStrokes_def eq r(1) by simp
qed

subsection \<open>The score and the decorations\<close>

lemma getScoreFrom_spec: "getScoreFrom d seq = d + specScore seq"
proof (induction d seq rule: getScoreFrom.induct)
  case (1 d s1 s2 rest)
  then show ?case
    by (simp add: Let_def specScore_def transitions_def algebra_simps)
qed (simp_all add: specScore_def transitions_def)

lemma getScore_spec: "getScore seq = specScore seq"
  by (simp add: getScore_def getScoreFrom_spec)

lemma mset_map_filter_split:
  "mset (map f (filter (\<lambda>x. \<not> P x) xs)) + mset (map f (filter P xs)) = mset (map f xs)"
  by (induction xs) simp_all

lemma main_underline_partition:
  "mset (mainStrokes strks) + mset (underlineStrokes strks) = mset strks"
proof -
  have "mset (mainStrokes strks) + mset (underlineStrokes strks)
      = mset (map (\<lambda>i. strks ! i) [0..<length strks])"
    unfolding mainStrokes_def underlineStrokes_def by (rule mset_map_filter_split)
  then show ?thesis by (simp add: map_nth)
qed

lemma sameOrReversed_refl: "list_all2 sameOrReversed us us"
  by (simp add: list_all2_refl sameOrReversed_def)

lemma reordered_with_decorations:
  assumes "reorderedStrokes ms (mainStrokes strks)"
  shows "reorderedStrokes (ms @ underlineStrokes strks) strks"
proof -
  from assms obtain xs where xs: "mset xs = mset (mainStrokes strks)" "list_all2 sameOrReversed ms xs"
    unfolding reorderedStrokes_def by blast
  have "mset (xs @ underlineStrokes strks) = mset strks"
    using xs(1) main_underline_partition [of strks] by simp
  moreover have "list_all2 sameOrReversed (ms @ underlineStrokes strks) (xs @ underlineStrokes strks)"
    using xs(2) sameOrReversed_refl by (rule list_all2_appendI)
  ultimately show ?thesis unfolding reorderedStrokes_def by blast
qed

lemma optimizeStrokeOrder_result:
  assumes "\<forall>s \<in> set strks. points s \<noteq> []"
  shows "optimizeStrokeOrder strks =
     Inr ((if getScore (solve (mainStrokes strks) True) < getScore (solve (mainStrokes strks) False) * 1.3
           then solve (mainStrokes strks) True else solve (mainStrokes strks) False)
          @ underlineStrokes strks)"
proof (cases "strks = []")
  case True
  then show ?thesis
    by (simp add: optimizeStrokeOrder_def mainStrokes_def underlineStrokes_def solve_def)
next
  case False
  have "\<not> (\<exists>s \<in> set strks. points s = [])" using assms by blast
  with False show ?thesis
    by (simp add: optimizeStrokeOrder_def cloneStrokes_id Let_def)
qed

subsection \<open>The solver on the concrete inputs\<close>

lemmas order_eval =
  getMeta_def runningMin_def runningMax_def Let_def strokeOf_def pt_def

lemma meta_L: "getMeta strokeL = \<lparr>m_stroke = strokeL, m_cx = 5, m_cy = 0, m_minX = 0, m_maxX = 10,
   m_minY = 0, m_maxY = 0, m_width = 10, m_height = 0, m_start = pt 0 0, m_end = pt 10 0\<rparr>"
  by (simp add: order_eval strokeL_def)

lemma meta_Up: "getMeta strokeUp = \<lparr>m_stroke = strokeUp, m_cx = 18, m_cy = 30, m_minX = 10, m_maxX = 26,
   m_minY = 30, m_maxY = 30, m_width = 16, m_height = 0, m_start = pt 10 30, m_end = pt 26 30\<rparr>"
  by (simp add: order_eval strokeUp_def)

lemma meta_R: "getMeta strokeR = \<lparr>m_stroke = strokeR, m_cx = 54, m_cy = 0, m_minX = 42, m_maxX = 66,
   m_minY = 0, m_maxY = 0, m_width = 24, m_height = 0, m_start = pt 42 0, m_end = pt 66 0\<rparr>"
  by (simp add: order_eval strokeR_def)

lemma underlineIndices_LUpR: "underlineIndices [strokeL, strokeUp, strokeR] = []"
  by (simp add: underlineIndices_def meta_L meta_Up meta_R runningMin_def runningMax_def Let_def
      isUnderline_def upt_rec)

lemma mainStrokes_LUpR: "mainStrokes [strokeL, strokeUp, strokeR] = [strokeL, strokeUp, strokeR]"
  by (simp add: mainStrokes_def underlineIndices_LUpR upt_rec)

lemma underlineStrokes_LUpR: "underlineStrokes [strokeL, strokeUp, strokeR] = []"
  by (simp add: underlineStrokes_def underlineIndices_LUpR)

lemma solve_neutral: "solve [strokeL, strokeUp, strokeR] False = [strokeL, strokeUp, strokeR]"
  by (simp add: solve_def meta_L meta_Up meta_R Let_def solveLoop.simps pickBest_def bestStep_def
      candidateCosts_def belowBest_def distSq_def pt_def enumerate_eq_zip upt_rec removeAt_def)

lemma solve_biased: "solve [strokeL, strokeUp, strokeR] True = [strokeL, strokeR, reverseStroke strokeUp]"
  by (simp add: solve_def meta_L meta_Up meta_R Let_def solveLoop.simps pickBest_def bestStep_def
      candidateCosts_def belowBest_def distSq_def pt_def enumerate_eq_zip upt_rec removeAt_def
      flipMeta_def)

lemma sqrt_900: "sqrt 900 = 30" by (rule sqrt_of_square) simp_all

lemma sqrt_1156: "sqrt 1156 = 34" by (rule sqrt_of_square) simp_all

lemma sqrt_1024: "sqrt 1024 = 32" by (rule sqrt_of_square) simp_all

lemma sqrt_2500: "sqrt 2500 = 50" by (rule sqrt_of_square) simp_all

lemma score_neutral: "specScore [strokeL, strokeUp, strokeR] = 64"
  by (simp add: specScore_def transitions_def strokeL_def strokeUp_def strokeR_def strokeOf_def
      pt_def distSq_def sqrt_900 sqrt_1156)

lemma score_biased: "specScore [strokeL, strokeR, reverseStroke strokeUp] = 82"
  by (simp add: specScore_def transitions_def strokeL_def strokeUp_def strokeR_def strokeOf_def
      pt_def distSq_def sqrt_1024 sqrt_2500 reverseStroke_def)

lemma points_LUpR: "\<forall>s \<in> set [strokeL, strokeUp, strokeR]. points s \<noteq> []"
  by (simp add: strokeL_def strokeUp_def strokeR_def strokeOf_def)

lemma metas_UnderDiag:
  "getMeta strokeUnder = \<lparr>m_stroke = strokeUnder, m_cx = 50, m_cy = 100, m_minX = 0, m_maxX = 100,
     m_minY = 100, m_maxY = 100, m_width = 100, m_height = 0, m_start = pt 0 100, m_end = pt 100 100\<rparr>"
  "getMeta strokeDiag = \<lparr>m_stroke = strokeDiag, m_cx = 5, m_cy = 5, m_minX = 0, m_maxX = 10,
     m_minY = 0, m_maxY = 10, m_width = 10, m_height = 10, m_start = pt 0 0, m_end = pt 10 10\<rparr>"
  by (simp_all add: order_eval strokeUnder_def strokeDiag_def)

lemma underlineIndices_UnderDiag: "underlineIndices [strokeUnder, strokeDiag] = [0]"
  by (simp add: underlineIndices_def metas_UnderDiag runningMin_def runningMax_def Let_def
      isUnderline_def upt_rec)

lemma split_UnderDiag:
  "mainStrokes [strokeUnder, strokeDiag] = [strokeDiag]"
  "underlineStrokes [strokeUnder, strokeDiag] = [strokeUnder]"
  by (simp_all add: mainStrokes_def underlineStrokes_def underlineIndices_UnderDiag upt_rec)

lemma solve_Diag: "solve [strokeDiag] useBias = [strokeDiag]"
  by (simp add: solve_def metas_UnderDiag Let_def solveLoop.simps pt_def)

subsection \<open>The output is a reordering of the input\<close>

text \<open>
  C10. For every input stroke list (each stroke with at least one point, as every stroke of
  the walker has), the solver returns a list \<open>ms @ underlineStrokes strks\<close>: the strokes
  classified as decorations come last, unchanged and in their original relative order, and
  \<open>ms\<close> holds every main stroke exactly once, as it was or exactly reversed; so the whole
  output is such a reordering of the whole input.
\<close>

theorem order_is_oriented_permutation:
  assumes "\<forall>s \<in> set strks. points s \<noteq> []"
  shows "\<exists>ms. optimizeStrokeOrder strks = Inr (ms @ underlineStrokes strks)
              \<and> reorderedStrokes ms (mainStrokes strks)
              \<and> reorderedStrokes (ms @ underlineStrokes strks) strks"
proof -
  define ms where "ms = (if getScore (solve (mainStrokes strks) True) < getScore (solve (mainStrokes strks) False) * 1.3
           then solve (mainStrokes strks) True else solve (mainStrokes strks) False)"
  have r: "reorderedStrokes ms (mainStrokes strks)"
    unfolding ms_def by (simp add: solve_reordered)
  have "optimizeStrokeOrder strks = Inr (ms @ underlineStrokes strks)"
    unfolding ms_def by (rule optimizeStrokeOrder_result [OF assms])
  with r reordered_with_decorations [OF r] show ?thesis by blast
qed

theorem order_is_oriented_permutation_witness:
  "points strokeUnder \<noteq> [] \<and> points strokeDiag \<noteq> []
   \<and> optimizeStrokeOrder [strokeUnder, strokeDiag] = Inr [strokeDiag, strokeUnder]
   \<and> underlineStrokes [strokeUnder, strokeDiag] = [strokeUnder]
   \<and> reorderedStrokes [strokeDiag] (mainStrokes [strokeUnder, strokeDiag])
   \<and> reorderedStrokes [strokeDiag, strokeUnder] [strokeUnder, strokeDiag]"
proof -
  have ne: "points strokeUnder \<noteq> []" "points strokeDiag \<noteq> []"
    by (simp_all add: strokeUnder_def strokeDiag_def strokeOf_def)
  then have "\<forall>s \<in> set [strokeUnder, strokeDiag]. points s \<noteq> []" by simp
  from order_is_oriented_permutation [OF this] obtain ms where
    ms: "optimizeStrokeOrder [strokeUnder, strokeDiag] = Inr (ms @ underlineStrokes [strokeUnder, strokeDiag])"
      "reorderedStrokes ms (mainStrokes [strokeUnder, strokeDiag])"
      "reorderedStrokes (ms @ underlineStrokes [strokeUnder, strokeDiag]) [strokeUnder, strokeDiag]"
    by blast
  have "optimizeStrokeOrder [strokeUnder, strokeDiag] = Inr [strokeDiag, strokeUnder]"
    by (simp add: optimizeStrokeOrder_def ne cloneStrokes_id split_UnderDiag solve_Diag Let_def)
  with ms(1) have "ms = [strokeDiag]" by (simp add: split_UnderDiag)
  with ms ne show ?thesis by (simp add: split_UnderDiag)
qed

subsection \<open>Which of the two sequences is returned\<close>

text \<open>
  C1, as the code has it. For every input stroke list (each stroke with at least one
  point), the solver runs the neutral and the biased variant on the main strokes and
  returns the biased sequence when its score is below 1.3 times the neutral score, the
  neutral sequence otherwise, followed by the decorations. The score is the shared scoring
  function in the specification's words.
\<close>

theorem order_selection:
  assumes "\<forall>s \<in> set strks. points s \<noteq> []"
  shows "optimizeStrokeOrder strks =
     Inr ((if specScore (solve (mainStrokes strks) True) < 1.3 * specScore (solve (mainStrokes strks) False)
           then solve (mainStrokes strks) True else solve (mainStrokes strks) False)
          @ underlineStrokes strks)"
  using optimizeStrokeOrder_result [OF assms] by (simp add: getScore_spec mult.commute)

theorem order_selection_witness:
  "points strokeL \<noteq> [] \<and> points strokeUp \<noteq> [] \<and> points strokeR \<noteq> []
   \<and> specScore (solve (mainStrokes [strokeL, strokeUp, strokeR]) True) = 82
   \<and> specScore (solve (mainStrokes [strokeL, strokeUp, strokeR]) False) = 64
   \<and> optimizeStrokeOrder [strokeL, strokeUp, strokeR] = Inr [strokeL, strokeR, reverseStroke strokeUp]"
  using order_selection [OF points_LUpR] points_LUpR
  by (simp add: mainStrokes_LUpR underlineStrokes_LUpR solve_neutral solve_biased score_neutral
      score_biased)

text \<open>
  The claim as stated fails: on the three strokes the neutral sequence scores 64 and the
  biased one 82, which is not above 1.3 times 64, and the solver returns the biased
  sequence, the one that scores higher.
\<close>

theorem order_selection_counterexample:
  "specScore (solve (mainStrokes [strokeL, strokeUp, strokeR]) False) = 64
   \<and> specScore (solve (mainStrokes [strokeL, strokeUp, strokeR]) True) = 82
   \<and> \<not> 82 > 1.3 * (64::real)
   \<and> optimizeStrokeOrder [strokeL, strokeUp, strokeR]
       = Inr (solve (mainStrokes [strokeL, strokeUp, strokeR]) True)
   \<and> solve (mainStrokes [strokeL, strokeUp, strokeR]) True
       \<noteq> solve (mainStrokes [strokeL, strokeUp, strokeR]) False"
proof -
  have ne: "strokeR \<noteq> strokeUp"
    by (simp add: strokeR_def strokeUp_def strokeOf_def pt_def)
  have "optimizeStrokeOrder [strokeL, strokeUp, strokeR]
       = Inr (solve (mainStrokes [strokeL, strokeUp, strokeR]) True)"
    using optimizeStrokeOrder_result [OF points_LUpR]
    by (simp add: mainStrokes_LUpR underlineStrokes_LUpR solve_neutral solve_biased getScore_spec score_neutral score_biased)
  then show ?thesis
    using ne by (simp add: mainStrokes_LUpR solve_neutral solve_biased score_neutral score_biased)
qed
section \<open>Despeckling\<close>

subsection \<open>The four neighbours are the 4-adjacent cells\<close>

lemma adjacent4_sym: "adjacent4 w h a b \<Longrightarrow> adjacent4 w h b a"
  by (auto simp: adjacent4_def)

lemma cellIndex_coords:
  assumes "inGrid w h n"
  shows "cellIndex w n = nat (snd n) * w + nat (fst n)"
    "cellIndex w n mod w = nat (fst n)" "cellIndex w n div w = nat (snd n)"
    "cellIndex w n < w * h"
proof -
  obtain x y where n: "n = (x, y)" by (cases n)
  from assms n have b: "0 \<le> x" "x < int w" "0 \<le> y" "y < int h" by (auto simp: inGrid_def)
  define u v where "u = nat x" and "v = nat y"
  have xy: "x = int u" "y = int v" using b by (auto simp: u_def v_def)
  have uv: "u < w" "v < h" using b xy by auto
  have c: "cellIndex w n = v * w + u"
    unfolding n cellIndex_def xy by (simp add: nat_add_distrib nat_mult_distrib)
  have f: "nat (fst n) = u" "nat (snd n) = v" by (simp_all add: n xy)
  show "cellIndex w n = nat (snd n) * w + nat (fst n)" by (simp add: c f)
  show "cellIndex w n mod w = nat (fst n)" using uv by (simp add: c f)
  show "cellIndex w n div w = nat (snd n)" using uv by (simp add: c f)
  have "v * w + u < (Suc v) * w" using uv by simp
  also have "\<dots> \<le> h * w" using uv by (intro mult_le_mono1) simp
  finally show "cellIndex w n < w * h" by (simp add: c mult.commute)
qed

lemma neighbor_adjacent:
  assumes "a < w * h" "n \<in> set (neighbors w a)" "inGrid w h n"
  shows "adjacent4 w h a (cellIndex w n)"
proof -
  note c = cellIndex_coords [OF assms(3)]
  from assms(2) have "n = (int (a mod w) - 1, int (a div w)) \<or> n = (int (a mod w) + 1, int (a div w))
      \<or> n = (int (a mod w), int (a div w) - 1) \<or> n = (int (a mod w), int (a div w) + 1)"
    by (simp add: neighbors_def Let_def)
  moreover have "0 \<le> fst n" "0 \<le> snd n" using assms(3) by (auto simp: inGrid_def)
  ultimately show ?thesis
    unfolding adjacent4_def c(2,3) using assms(1) c(4) by auto
qed

lemma adjacent_neighbor:
  assumes "0 < w" "adjacent4 w h a b"
  shows "\<exists>n \<in> set (neighbors w a). inGrid w h n \<and> cellIndex w n = b"
proof -
  define n where "n = (int (b mod w), int (b div w))"
  have b: "b < w * h" using assms(2) by (simp add: adjacent4_def)
  have "b div w < h" using b assms(1) by (simp add: less_mult_imp_div_less mult.commute)
  then have g: "inGrid w h n" using assms(1) by (simp add: inGrid_def n_def)
  have "cellIndex w n = b div w * w + b mod w"
    using cellIndex_coords(1) [OF g] by (simp add: n_def)
  then have i: "cellIndex w n = b" by simp
  have "n \<in> set (neighbors w a)"
    using assms(2) unfolding adjacent4_def neighbors_def Let_def n_def by auto
  with g i show ?thesis by blast
qed

lemma reach_unseen:
  assumes "i \<in> unseenInk data seen0"
  shows "reach data w h seen0 i \<subseteq> unseenInk data seen0"
proof
  fix j assume "j \<in> reach data w h seen0 i"
  then have "(i, j) \<in> (unseenEdges data w h seen0)\<^sup>*" by (simp add: reach_def)
  then show "j \<in> unseenInk data seen0"
    using assms by (induction rule: rtrancl_induct) (auto simp: unseenEdges_def)
qed

lemma reach_step:
  "a \<in> reach data w h seen0 i \<Longrightarrow> (a, b) \<in> unseenEdges data w h seen0
     \<Longrightarrow> b \<in> reach data w h seen0 i"
  by (auto simp: reach_def intro: rtrancl_into_rtrancl)

lemma visitNeighbor_base:
  assumes w: "0 < w" and len: "length data = w * h" "length seen0 = length data"
    and i: "i \<in> unseenInk data seen0"
    and base: "fillBase data w h seen0 i st"
    and idx: "idx \<in> set (fst (snd st))"
    and n: "n \<in> set (neighbors w idx)"
  shows "fillBase data w h seen0 i (visitNeighbor data w h st n)"
    and "\<exists>ys. fst (snd (visitNeighbor data w h st n)) = fst (snd st) @ ys"
    and "inGrid w h n \<Longrightarrow> cellIndex w n \<in> unseenInk data seen0
          \<Longrightarrow> cellIndex w n \<in> set (fst (snd (visitNeighbor data w h st n)))"
proof -
  obtain seen stack comp where st: "st = (seen, stack, comp)" by (cases st) auto
  from base st have b: "comp = stack" "distinct stack" "set stack \<subseteq> reach data w h seen0 i"
      "length seen = length seen0"
      "\<forall>j < length seen0. seen ! j = (if j \<in> set stack then 1 else seen0 ! j)"
    by (simp_all add: fillBase_def)
  define k where "k = cellIndex w n"
  define push where "push \<longleftrightarrow> inGrid w h n \<and> k < length data \<and> data ! k = 1 \<and> k < length seen \<and> seen ! k = 0"
  have v: "visitNeighbor data w h st n = (if push then (seen[k := 1], stack @ [k], comp @ [k]) else st)"
    by (auto simp: visitNeighbor_def st Let_def push_def k_def)
  have idxR: "idx \<in> reach data w h seen0 i" using idx b(3) st by auto
  then have idxU: "idx \<in> unseenInk data seen0" using reach_unseen [OF i] by blast
  then have idxlt: "idx < w * h" using len by (simp add: unseenInk_def ink_def)
  show "fillBase data w h seen0 i (visitNeighbor data w h st n)"
  proof (cases push)
    case False
    then show ?thesis using v base by simp
  next
    case True
    then have p: "inGrid w h n" "k < length data" "data ! k = 1" "k < length seen" "seen ! k = 0"
      by (simp_all add: push_def)
    have klt: "k < length seen0" using p(4) b(4) by simp
    have knot: "k \<notin> set stack" using b(5) klt p(5) by auto
    have k0: "seen0 ! k = 0" using b(5) klt p(5) knot by auto
    have kU: "k \<in> unseenInk data seen0" using p klt k0 by (simp add: unseenInk_def ink_def)
    have "adjacent4 w h idx k" unfolding k_def by (rule neighbor_adjacent [OF idxlt n p(1)])
    then have "(idx, k) \<in> unseenEdges data w h seen0" using idxU kU by (simp add: unseenEdges_def)
    then have kR: "k \<in> reach data w h seen0 i" using idxR reach_step by blast
    have "\<forall>j < length seen0. seen[k := 1] ! j = (if j \<in> set (stack @ [k]) then 1 else seen0 ! j)"
    proof (intro allI impI)
      fix j assume j: "j < length seen0"
      show "seen[k := 1] ! j = (if j \<in> set (stack @ [k]) then 1 else seen0 ! j)"
      proof (cases "j = k")
        case True
        then show ?thesis using p(4) by simp
      next
        case False
        then have "seen[k := 1] ! j = seen ! j" by simp
        then show ?thesis using b(5) j False by simp
      qed
    qed
    then show ?thesis
      using True v b knot kR by (simp add: fillBase_def)
  qed
  show "\<exists>ys. fst (snd (visitNeighbor data w h st n)) = fst (snd st) @ ys"
    using v st by auto
  show "cellIndex w n \<in> set (fst (snd (visitNeighbor data w h st n)))"
    if g: "inGrid w h n" and u: "cellIndex w n \<in> unseenInk data seen0"
  proof (cases push)
    case True
    then show ?thesis using v by (simp add: k_def)
  next
    case False
    from u have ku: "k < length data" "data ! k = 1" "k < length seen0" "seen0 ! k = 0"
      by (simp_all add: unseenInk_def ink_def k_def)
    with False g b(4) have "seen ! k \<noteq> 0" by (simp add: push_def)
    moreover have "seen ! k = (if k \<in> set stack then 1 else seen0 ! k)" using b(5) ku(3) by blast
    ultimately have "k \<in> set stack" using ku(4) by (cases "k \<in> set stack") simp_all
    then show ?thesis using v False st by (simp add: k_def)
  qed
qed

lemma visitFold_base:
  assumes w: "0 < w" and len: "length data = w * h" "length seen0 = length data"
    and i: "i \<in> unseenInk data seen0"
  shows "fillBase data w h seen0 i st \<Longrightarrow> idx \<in> set (fst (snd st))
     \<Longrightarrow> set ns \<subseteq> set (neighbors w idx)
     \<Longrightarrow> fillBase data w h seen0 i (foldl (visitNeighbor data w h) st ns)
         \<and> (\<exists>ys. fst (snd (foldl (visitNeighbor data w h) st ns)) = fst (snd st) @ ys)
         \<and> (\<forall>n \<in> set ns. inGrid w h n \<longrightarrow> cellIndex w n \<in> unseenInk data seen0
               \<longrightarrow> cellIndex w n \<in> set (fst (snd (foldl (visitNeighbor data w h) st ns))))"
proof (induction ns arbitrary: st)
  case Nil
  then show ?case by simp
next
  case (Cons n ns)
  define st1 where "st1 = visitNeighbor data w h st n"
  have n: "n \<in> set (neighbors w idx)" using Cons.prems(3) by simp
  note v = visitNeighbor_base [OF w len i Cons.prems(1,2) n]
  from v(2) obtain ys where ys: "fst (snd st1) = fst (snd st) @ ys" unfolding st1_def by blast
  then have idx1: "idx \<in> set (fst (snd st1))" using Cons.prems(2) by simp
  have ns: "set ns \<subseteq> set (neighbors w idx)" using Cons.prems(3) by simp
  from Cons.IH [OF v(1) [folded st1_def] idx1 ns]
  have ih: "fillBase data w h seen0 i (foldl (visitNeighbor data w h) st1 ns)"
      "\<exists>zs. fst (snd (foldl (visitNeighbor data w h) st1 ns)) = fst (snd st1) @ zs"
      "\<forall>m \<in> set ns. inGrid w h m \<longrightarrow> cellIndex w m \<in> unseenInk data seen0
               \<longrightarrow> cellIndex w m \<in> set (fst (snd (foldl (visitNeighbor data w h) st1 ns)))"
    by blast+
  from ih(2) obtain zs where zs: "fst (snd (foldl (visitNeighbor data w h) st1 ns)) = fst (snd st1) @ zs"
    by blast
  have first: "inGrid w h n \<longrightarrow> cellIndex w n \<in> unseenInk data seen0
      \<longrightarrow> cellIndex w n \<in> set (fst (snd (foldl (visitNeighbor data w h) st1 ns)))"
    using v(3) zs unfolding st1_def [symmetric] by auto
  have "fst (snd (foldl (visitNeighbor data w h) st1 ns)) = fst (snd st) @ (ys @ zs)"
    using ys zs by simp
  then have ex: "\<exists>us. fst (snd (foldl (visitNeighbor data w h) st1 ns)) = fst (snd st) @ us"
    by blast
  show ?case
    using ih(1) ex first ih(3) by (simp add: st1_def)
qed

lemma visitNeighbors_base:
  assumes w: "0 < w" and len: "length data = w * h" "length seen0 = length data"
    and i: "i \<in> unseenInk data seen0"
    and base: "fillBase data w h seen0 i st" and idx: "idx \<in> set (fst (snd st))"
  shows "fillBase data w h seen0 i (visitNeighbors data w h idx st)"
    and "\<exists>ys. fst (snd (visitNeighbors data w h idx st)) = fst (snd st) @ ys"
    and "b \<in> unseenInk data seen0 \<Longrightarrow> adjacent4 w h idx b
           \<Longrightarrow> b \<in> set (fst (snd (visitNeighbors data w h idx st)))"
proof -
  note f = visitFold_base [OF w len i base idx subset_refl]
  show "fillBase data w h seen0 i (visitNeighbors data w h idx st)"
    using f by (simp add: visitNeighbors_def)
  show "\<exists>ys. fst (snd (visitNeighbors data w h idx st)) = fst (snd st) @ ys"
    using f by (simp add: visitNeighbors_def)
  show "b \<in> set (fst (snd (visitNeighbors data w h idx st)))"
    if b: "b \<in> unseenInk data seen0" and a: "adjacent4 w h idx b"
  proof -
    from adjacent_neighbor [OF w a] obtain n where
      n: "n \<in> set (neighbors w idx)" "inGrid w h n" "cellIndex w n = b" by blast
    with f b show ?thesis by (auto simp: visitNeighbors_def)
  qed
qed

lemma fillInv_step:
  assumes w: "0 < w" and len: "length data = w * h" "length seen0 = length data"
    and i: "i \<in> unseenInk data seen0"
    and inv: "fillInv data w h seen0 i ptr cnt st" and lt: "ptr < length (fst (snd st))"
  shows "fillInv data w h seen0 i (Suc ptr) (Suc cnt)
           (visitNeighbors data w h (fst (snd st) ! ptr) st)"
proof -
  define stack where "stack = fst (snd st)"
  define st' where "st' = visitNeighbors data w h (stack ! ptr) st"
  from inv have base: "fillBase data w h seen0 i st" and c: "cnt = ptr" and iin: "i \<in> set stack"
    and closed: "\<forall>a \<in> set (take ptr stack). \<forall>b \<in> unseenInk data seen0.
           adjacent4 w h a b \<longrightarrow> b \<in> set stack"
    by (simp_all add: fillInv_def stack_def)
  have idx: "stack ! ptr \<in> set (fst (snd st))" using lt by (simp add: stack_def)
  note v = visitNeighbors_base [OF w len i base idx]
  from v(2) obtain ys where ys: "fst (snd st') = stack @ ys" by (auto simp: st'_def stack_def)
  have t: "take (Suc ptr) (fst (snd st')) = take ptr stack @ [stack ! ptr]"
    using lt by (simp add: ys stack_def take_Suc_conv_app_nth)
  have "\<forall>a \<in> set (take (Suc ptr) (fst (snd st'))). \<forall>b \<in> unseenInk data seen0.
           adjacent4 w h a b \<longrightarrow> b \<in> set (fst (snd st'))"
  proof (intro ballI impI)
    fix a b assume a: "a \<in> set (take (Suc ptr) (fst (snd st')))"
      and b: "b \<in> unseenInk data seen0" and ab: "adjacent4 w h a b"
    from a t have "a \<in> set (take ptr stack) \<or> a = stack ! ptr" by auto
    then show "b \<in> set (fst (snd st'))"
    proof
      assume "a \<in> set (take ptr stack)"
      then have "b \<in> set stack" using closed b ab by blast
      then show ?thesis by (simp add: ys)
    next
      assume "a = stack ! ptr"
      then show ?thesis using v(3) [OF b] ab by (simp add: st'_def stack_def)
    qed
  qed
  moreover have "Suc ptr \<le> length (fst (snd st'))" using lt by (simp add: ys stack_def)
  moreover have "i \<in> set (fst (snd st'))" using iin by (simp add: ys)
  ultimately show ?thesis
    using v(1) c unfolding fillInv_def st'_def stack_def by simp
qed

lemma fillInv_done:
  assumes i: "i \<in> unseenInk data seen0"
    and inv: "fillInv data w h seen0 i ptr cnt st" and ge: "\<not> ptr < length (fst (snd st))"
  shows "set (snd (snd st)) = reach data w h seen0 i" "distinct (snd (snd st))"
    "cnt = length (snd (snd st))" "length (fst st) = length seen0"
    "\<forall>j < length seen0. fst st ! j = (if j \<in> reach data w h seen0 i then 1 else seen0 ! j)"
proof -
  define stack where "stack = fst (snd st)"
  from inv have comp: "snd (snd st) = stack" and d: "distinct stack"
    and sub: "set stack \<subseteq> reach data w h seen0 i" and ls: "length (fst st) = length seen0"
    and rel: "\<forall>j < length seen0. fst st ! j = (if j \<in> set stack then 1 else seen0 ! j)"
    and c: "cnt = ptr" and le: "ptr \<le> length stack" and iin: "i \<in> set stack"
    and closed: "\<forall>a \<in> set (take ptr stack). \<forall>b \<in> unseenInk data seen0.
           adjacent4 w h a b \<longrightarrow> b \<in> set stack"
    by (simp_all add: fillInv_def fillBase_def stack_def)
  have p: "ptr = length stack" using ge le by (simp add: stack_def)
  have "j \<in> set stack" if "(i, j) \<in> (unseenEdges data w h seen0)\<^sup>*" for j
    using that
  proof (induction rule: rtrancl_induct)
    case base
    then show ?case by (rule iin)
  next
    case (step a b)
    from step(2) have "b \<in> unseenInk data seen0" "adjacent4 w h a b"
      by (simp_all add: unseenEdges_def)
    with closed step(3) p show ?case by auto
  qed
  then have "reach data w h seen0 i \<subseteq> set stack" by (auto simp: reach_def)
  with sub have eq: "set stack = reach data w h seen0 i" by blast
  show "set (snd (snd st)) = reach data w h seen0 i" by (simp add: comp eq)
  show "distinct (snd (snd st))" by (simp add: comp d)
  show "cnt = length (snd (snd st))" by (simp add: comp c p)
  show "length (fst st) = length seen0" by (rule ls)
  show "\<forall>j < length seen0. fst st ! j = (if j \<in> reach data w h seen0 i then 1 else seen0 ! j)"
    using rel by (simp add: eq)
qed

lemma floodFill_inv:
  "fillInv data w h seen0 i ptr cnt st \<Longrightarrow> 0 < w \<Longrightarrow> length data = w * h
     \<Longrightarrow> length seen0 = length data \<Longrightarrow> i \<in> unseenInk data seen0 \<Longrightarrow>
     set (snd (snd (floodFill data w h ptr cnt st))) = reach data w h seen0 i
     \<and> distinct (snd (snd (floodFill data w h ptr cnt st)))
     \<and> fst (floodFill data w h ptr cnt st) = length (snd (snd (floodFill data w h ptr cnt st)))
     \<and> length (fst (snd (floodFill data w h ptr cnt st))) = length seen0
     \<and> (\<forall>j < length seen0. fst (snd (floodFill data w h ptr cnt st)) ! j
            = (if j \<in> reach data w h seen0 i then 1 else seen0 ! j))"
proof (induction data w h ptr cnt st rule: floodFill.induct)
  case (1 data width height ptr cnt st)
  show ?case
  proof (cases "ptr < length (fst (snd st))")
    case True
    have "fillInv data width height seen0 i (Suc ptr) (Suc cnt)
           (visitNeighbors data width height (fst (snd st) ! ptr) st)"
      by (rule fillInv_step [OF "1.prems"(2-5) "1.prems"(1) True])
    note ih = "1.IH" [OF True this "1.prems"(2-5)]
    have eq: "floodFill data width height ptr cnt st
        = floodFill data width height (Suc ptr) (Suc cnt)
            (visitNeighbors data width height (fst (snd st) ! ptr) st)"
      using True by (subst floodFill.simps) simp
    show ?thesis unfolding eq by (rule ih)
  next
    case False
    note d = fillInv_done [OF "1.prems"(5) "1.prems"(1) False]
    have eq: "floodFill data width height ptr cnt st = (cnt, fst st, snd (snd st))"
      using False by (subst floodFill.simps) simp
    show ?thesis unfolding eq using d by simp
  qed
qed

lemma inkEdges_sym: "(a, b) \<in> inkEdges data w h \<Longrightarrow> (b, a) \<in> inkEdges data w h"
  by (auto simp: inkEdges_def adjacent4_sym)

lemma component_sym:
  assumes "j \<in> component data w h i"
  shows "i \<in> component data w h j"
proof -
  have "sym (inkEdges data w h)" by (auto simp: sym_def inkEdges_sym)
  then have "sym ((inkEdges data w h)\<^sup>*)" by (rule sym_rtrancl)
  with assms show ?thesis by (auto simp: component_def sym_def)
qed

lemma component_trans:
  "j \<in> component data w h i \<Longrightarrow> k \<in> component data w h j \<Longrightarrow> k \<in> component data w h i"
  by (auto simp: component_def)

lemma component_eq:
  assumes "j \<in> component data w h i"
  shows "component data w h j = component data w h i"
  using assms component_sym [OF assms] by (auto intro: component_trans)

lemma component_self: "i \<in> component data w h i"
  by (simp add: component_def)

lemma component_ink:
  assumes "ink data i" "j \<in> component data w h i"
  shows "ink data j"
proof -
  from assms(2) have "(i, j) \<in> (inkEdges data w h)\<^sup>*" by (simp add: component_def)
  then show ?thesis using assms(1)
    by (induction rule: rtrancl_induct) (auto simp: inkEdges_def)
qed

lemma component_finite:
  assumes "ink data i"
  shows "finite (component data w h i)"
proof -
  have "component data w h i \<subseteq> {..<length data}"
    using component_ink [OF assms] by (auto simp: ink_def)
  then show ?thesis by (rule finite_subset) simp
qed

lemma zeroAll_props:
  "length (zeroAll d c) = length d"
  "j < length d \<Longrightarrow> zeroAll d c ! j = (if j \<in> set c then 0 else d ! j)"
proof -
  have "length (foldl (\<lambda>d idx. d[idx := 0]) d c) = length d
      \<and> (j < length d \<longrightarrow> foldl (\<lambda>d idx. d[idx := 0]) d c ! j = (if j \<in> set c then 0 else d ! j))"
  proof (induction c arbitrary: d)
    case Nil
    then show ?case by simp
  next
    case (Cons a c)
    show ?case using Cons.IH [of "d[a := 0]"] by (auto simp: nth_list_update)
  qed
  then show "length (zeroAll d c) = length d"
    "j < length d \<Longrightarrow> zeroAll d c ! j = (if j \<in> set c then 0 else d ! j)"
    by (simp_all add: zeroAll_def)
qed

lemma early_Suc:
  "early data0 w h (Suc k) j \<longleftrightarrow> early data0 w h k j \<or> (ink data0 j \<and> j \<in> component data0 w h k)"
proof -
  have "(\<exists>m < Suc k. m \<in> component data0 w h j)
      \<longleftrightarrow> (\<exists>m < k. m \<in> component data0 w h j) \<or> k \<in> component data0 w h j"
    by (auto simp: less_Suc_eq)
  moreover have "k \<in> component data0 w h j \<longleftrightarrow> j \<in> component data0 w h k"
    using component_sym by blast
  ultimately show ?thesis by (auto simp: early_def)
qed

lemma early_component:
  assumes "j \<in> component data0 w h i" "ink data0 i"
  shows "early data0 w h k j \<longleftrightarrow> early data0 w h k i"
  using component_eq [OF assms(1)] component_ink [OF assms(2,1)] assms(2)
  by (simp add: early_def)

lemma outer_skip:
  assumes inv: "outerInv data0 w h minSize k (data, seen)" and k: "k < length data0"
    and c: "\<not> (data ! k = 1 \<and> seen ! k = 0)"
  shows "outerInv data0 w h minSize (Suc k) (data, seen)"
proof -
  from inv have S: "\<forall>j < length data0. seen ! j = (if early data0 w h k j then 1 else 0)"
    and D: "\<forall>j < length data0. data ! j =
           (if early data0 w h k j \<and> card (component data0 w h j) < minSize then 0 else data0 ! j)"
    by (simp_all add: outerInv_def)
  have "early data0 w h (Suc k) j \<longleftrightarrow> early data0 w h k j" for j
  proof -
    have "early data0 w h k j" if j: "ink data0 j" "j \<in> component data0 w h k"
    proof -
      have "k \<in> component data0 w h j" using j(2) by (rule component_sym)
      then have ik: "ink data0 k" using j(1) component_ink by blast
      have "early data0 w h k k"
      proof (rule ccontr)
        assume n: "\<not> early data0 w h k k"
        then have "seen ! k = 0" using S k by simp
        moreover have "data ! k = data0 ! k" using D k n by simp
        then have "data ! k = 1" using ik by (simp add: ink_def)
        ultimately show False using c by simp
      qed
      then show ?thesis using early_component [OF j(2) ik] by simp
    qed
    then show ?thesis by (auto simp: early_Suc)
  qed
  then show ?thesis using inv by (simp add: outerInv_def)
qed

lemma outer_fill:
  assumes w: "0 < w" and len: "length data0 = w * h"
    and inv: "outerInv data0 w h minSize k (data, seen)" and k: "k < length data0"
    and c: "data ! k = 1" "seen ! k = 0"
  shows "outerInv data0 w h minSize (Suc k) (despeckleStep w h minSize (data, seen) k)"
proof -
  define C where "C = component data0 w h k"
  from inv have L: "length data = length data0" "length seen = length data0"
    and S: "\<forall>j < length data0. seen ! j = (if early data0 w h k j then 1 else 0)"
    and D: "\<forall>j < length data0. data ! j =
           (if early data0 w h k j \<and> card (component data0 w h j) < minSize then 0 else data0 ! j)"
    by (simp_all add: outerInv_def)
  have nek: "\<not> early data0 w h k k" using S k c(2) by (cases "early data0 w h k k") simp_all
  then have "data ! k = data0 ! k" using D k by simp
  then have ik: "ink data0 k" using c(1) k by (simp add: ink_def)
  have inC: "ink data0 j \<and> \<not> early data0 w h k j \<and> component data0 w h j = C" if "j \<in> C" for j
  proof -
    have jk: "j \<in> component data0 w h k" using that by (simp add: C_def)
    have "ink data0 j" using ik jk by (rule component_ink)
    moreover have "\<not> early data0 w h k j" using early_component [OF jk ik, of k] nek by simp
    moreover have "component data0 w h j = C" unfolding C_def using jk by (rule component_eq)
    ultimately show ?thesis by simp
  qed
  have U: "j \<in> unseenInk data seen \<longleftrightarrow> ink data0 j \<and> \<not> early data0 w h k j" for j
  proof
    assume "j \<in> unseenInk data seen"
    then have j: "j < length data0" "data ! j = 1" "seen ! j = 0"
      using L by (simp_all add: unseenInk_def ink_def)
    have ne: "\<not> early data0 w h k j" using S j(1,3) by (cases "early data0 w h k j") simp_all
    then have "data ! j = data0 ! j" using D j(1) by simp
    with j ne show "ink data0 j \<and> \<not> early data0 w h k j" by (simp add: ink_def)
  next
    assume a: "ink data0 j \<and> \<not> early data0 w h k j"
    then have j: "j < length data0" "data0 ! j = 1" by (simp_all add: ink_def)
    have "seen ! j = 0" using S j(1) a by simp
    moreover have "data ! j = 1" using D j a by simp
    ultimately show "j \<in> unseenInk data seen" using j(1) L by (simp add: unseenInk_def ink_def)
  qed
  have kU: "k \<in> unseenInk data seen" using U ik nek by simp
  have R: "reach data w h seen k = C"
  proof
    have "unseenEdges data w h seen \<subseteq> inkEdges data0 w h"
      using U by (auto simp: unseenEdges_def inkEdges_def)
    then have "(unseenEdges data w h seen)\<^sup>* \<subseteq> (inkEdges data0 w h)\<^sup>*" by (rule rtrancl_mono)
    then show "reach data w h seen k \<subseteq> C" by (auto simp: reach_def C_def component_def)
  next
    have "(k, b) \<in> (unseenEdges data w h seen)\<^sup>*" if "(k, b) \<in> (inkEdges data0 w h)\<^sup>*" for b
      using that
    proof (induction rule: rtrancl_induct)
      case base
      then show ?case by simp
    next
      case (step a b)
      have "a \<in> C" using step(1) by (simp add: C_def component_def)
      moreover have "b \<in> C" using step(1,2) by (simp add: C_def component_def)
      ultimately have "a \<in> unseenInk data seen" "b \<in> unseenInk data seen"
        using inC U by simp_all
      moreover have "adjacent4 w h a b" using step(2) by (simp add: inkEdges_def)
      ultimately have "(a, b) \<in> unseenEdges data w h seen" by (simp add: unseenEdges_def)
      with step(3) show ?case by (rule rtrancl_into_rtrancl)
    qed
    then show "C \<subseteq> reach data w h seen k" by (auto simp: reach_def C_def component_def)
  qed
  define filled where "filled = floodFill data w h 0 0 (seen[k := 1], [k], [k])"
  have init: "fillInv data w h seen k 0 0 (seen[k := 1], [k], [k])"
  proof -
    have "k \<in> reach data w h seen k" by (simp add: reach_def)
    moreover have "\<forall>j < length seen. seen[k := 1] ! j = (if j \<in> set [k] then 1 else seen ! j)"
      by (auto simp: nth_list_update)
    ultimately show ?thesis by (simp add: fillInv_def fillBase_def)
  qed
  have lw: "length data = w * h" "length seen = length data" using L len by simp_all
  from floodFill_inv [OF init w lw kU]
  have F: "set (snd (snd filled)) = C" "distinct (snd (snd filled))"
      "fst filled = length (snd (snd filled))" "length (fst (snd filled)) = length data0"
      "\<forall>j < length data0. fst (snd filled) ! j = (if j \<in> C then 1 else seen ! j)"
    unfolding filled_def [symmetric] R L by simp_all
  have cnt: "fst filled = card C" using F(1,2,3) distinct_card by fastforce
  define data' where "data' = (if fst filled < minSize then zeroAll data (snd (snd filled)) else data)"
  have step: "despeckleStep w h minSize (data, seen) k = (data', fst (snd filled))"
    using c by (simp add: despeckleStep_def Let_def filled_def data'_def)
  have E: "early data0 w h (Suc k) j \<longleftrightarrow> early data0 w h k j \<or> j \<in> C" for j
    using inC [of j] by (auto simp: early_Suc C_def)
  have s': "\<forall>j < length data0. fst (snd filled) ! j = (if early data0 w h (Suc k) j then 1 else 0)"
  proof (intro allI impI)
    fix j assume j: "j < length data0"
    show "fst (snd filled) ! j = (if early data0 w h (Suc k) j then 1 else 0)"
    proof (cases "j \<in> C")
      case True
      then show ?thesis using F(5) j E by simp
    next
      case False
      then have "fst (snd filled) ! j = seen ! j" using F(5) j by simp
      then show ?thesis using S j E False by simp
    qed
  qed
  have d': "\<forall>j < length data0. data' ! j =
           (if early data0 w h (Suc k) j \<and> card (component data0 w h j) < minSize then 0 else data0 ! j)"
  proof (intro allI impI)
    fix j assume j: "j < length data0"
    show "data' ! j =
           (if early data0 w h (Suc k) j \<and> card (component data0 w h j) < minSize then 0 else data0 ! j)"
    proof (cases "j \<in> C")
      case True
      note i = inC [OF True]
      have old: "data ! j = data0 ! j" using D j i by simp
      show ?thesis
      proof (cases "fst filled < minSize")
        case small: True
        then have "data' ! j = 0"
          using zeroAll_props(2) [of j data "snd (snd filled)"] j L F(1) True
          by (simp add: data'_def)
        then show ?thesis using E True i small cnt by simp
      next
        case False
        then have "data' ! j = data0 ! j" using old by (simp add: data'_def)
        then show ?thesis using i False cnt by simp
      qed
    next
      case False
      have "data' ! j = data ! j"
        using zeroAll_props(2) [of j data "snd (snd filled)"] j L F(1) False
        by (simp add: data'_def)
      then show ?thesis using D j E False by simp
    qed
  qed
  have "length data' = length data0"
    using L zeroAll_props(1) [of data "snd (snd filled)"] by (simp add: data'_def)
  then show ?thesis
    unfolding step outerInv_def using F(4) s' d' by simp
qed

lemma outer_step:
  assumes w: "0 < w" and len: "length data0 = w * h"
    and inv: "outerInv data0 w h minSize k ds" and k: "k < length data0"
  shows "outerInv data0 w h minSize (Suc k) (despeckleStep w h minSize ds k)"
proof -
  obtain data seen where ds: "ds = (data, seen)" by (cases ds)
  show ?thesis
  proof (cases "data ! k = 1 \<and> seen ! k = 0")
    case True
    then show ?thesis using outer_fill [OF w len inv [unfolded ds] k] by (simp add: ds)
  next
    case False
    then have "despeckleStep w h minSize ds k = ds"
      by (simp only: despeckleStep_def ds Let_def fst_conv snd_conv if_False)
    then show ?thesis using outer_skip [OF inv [unfolded ds] k False] by (simp add: ds)
  qed
qed

lemma outer_fold:
  assumes w: "0 < w" and len: "length data0 = w * h"
  shows "k \<le> length data0 \<Longrightarrow>
     outerInv data0 w h minSize k
       (foldl (despeckleStep w h minSize) (data0, replicate (length data0) 0) [0..<k])"
proof (induction k)
  case 0
  then show ?case by (simp add: outerInv_def early_def)
next
  case (Suc k)
  then have "outerInv data0 w h minSize k
       (foldl (despeckleStep w h minSize) (data0, replicate (length data0) 0) [0..<k])"
    and "k < length data0" by simp_all
  from outer_step [OF w len this] show ?case by simp
qed

lemma despeckle_characterisation:
  assumes w: "0 < w" and len: "length data = w * h"
  shows "length (despeckleBitmask data w h minSize) = length data"
    and "j < length data \<Longrightarrow> despeckleBitmask data w h minSize ! j =
          (if ink data j \<and> card (component data w h j) < minSize then 0 else data ! j)"
proof -
  note f = outer_fold [OF w len order_refl, of minSize]
  show "length (despeckleBitmask data w h minSize) = length data"
    using f by (simp add: outerInv_def despeckleBitmask_def)
  show "despeckleBitmask data w h minSize ! j =
          (if ink data j \<and> card (component data w h j) < minSize then 0 else data ! j)"
    if j: "j < length data"
  proof -
    have "early data w h (length data) j \<longleftrightarrow> ink data j"
      using j component_self [of j data w h] by (auto simp: early_def)
    then show ?thesis using f j by (simp add: outerInv_def despeckleBitmask_def)
  qed
qed

lemma inkCount_mono:
  "length xs = length ys \<Longrightarrow> (\<forall>j < length xs. xs ! j = 1 \<longrightarrow> ys ! j = 1)
     \<Longrightarrow> inkCount xs \<le> inkCount ys"
proof (induction xs ys rule: list_induct2)
  case Nil
  then show ?case by (simp add: inkCount_def)
next
  case (Cons x xs y ys)
  have "\<forall>j < length xs. xs ! j = 1 \<longrightarrow> ys ! j = 1"
  proof (intro allI impI)
    fix j assume "j < length xs" "xs ! j = 1"
    then show "ys ! j = 1" using Cons.prems [rule_format, of "Suc j"] by simp
  qed
  then have ih: "inkCount xs \<le> inkCount ys" by (rule Cons.IH)
  have "x = 1 \<longrightarrow> y = 1" using Cons.prems [rule_format, of 0] by simp
  with ih show ?case by (auto simp: inkCount_def)
qed

lemma despeckle_ink:
  assumes w: "0 < w" and len: "length data = w * h"
  shows "ink (despeckleBitmask data w h minSize) j
     \<longleftrightarrow> ink data j \<and> minSize \<le> card (component data w h j)"
  using despeckle_characterisation(1) [OF w len, where minSize = minSize]
    despeckle_characterisation(2) [OF w len, where minSize = minSize and j = j]
  by (auto simp: ink_def split: if_splits)

lemma despeckle_keeps_component:
  assumes w: "0 < w" and len: "length data = w * h"
    and i: "ink data i" and big: "minSize \<le> card (component data w h i)"
  shows "component (despeckleBitmask data w h minSize) w h i = component data w h i"
proof
  define out where "out = despeckleBitmask data w h minSize"
  have "inkEdges out w h \<subseteq> inkEdges data w h"
    using despeckle_ink [OF w len, of minSize] by (auto simp: inkEdges_def out_def)
  then have "(inkEdges out w h)\<^sup>* \<subseteq> (inkEdges data w h)\<^sup>*" by (rule rtrancl_mono)
  then show "component (despeckleBitmask data w h minSize) w h i \<subseteq> component data w h i"
    by (auto simp: component_def out_def)
next
  define out where "out = despeckleBitmask data w h minSize"
  have keep: "ink out a" if "a \<in> component data w h i" for a
  proof -
    have "ink data a" using i that by (rule component_ink)
    moreover have "component data w h a = component data w h i" using that by (rule component_eq)
    ultimately show ?thesis using despeckle_ink [OF w len, of minSize a] big by (simp add: out_def)
  qed
  have "(i, b) \<in> (inkEdges out w h)\<^sup>*" if "(i, b) \<in> (inkEdges data w h)\<^sup>*" for b
    using that
  proof (induction rule: rtrancl_induct)
    case base
    then show ?case by simp
  next
    case (step a b)
    have "a \<in> component data w h i" using step(1) by (simp add: component_def)
    moreover have "b \<in> component data w h i" using step(1,2) by (simp add: component_def)
    ultimately have "ink out a" "ink out b" using keep by simp_all
    moreover have "adjacent4 w h a b" using step(2) by (simp add: inkEdges_def)
    ultimately have "(a, b) \<in> inkEdges out w h" by (simp add: inkEdges_def)
    with step(3) show ?case by (rule rtrancl_into_rtrancl)
  qed
  then show "component data w h i \<subseteq> component (despeckleBitmask data w h minSize) w h i"
    by (auto simp: component_def out_def)
qed

subsection \<open>Small components are removed, everything else stays\<close>

text \<open>
  C4. For a mask of \<open>w\<close> by \<open>h\<close> cells (\<open>w > 0\<close>): every cell of a connected component
  (4-connectivity) with fewer than \<open>minSize\<close> cells is zeroed; every cell of a component with
  at least \<open>minSize\<close> cells stays ink and the component is the same after despeckling;
  every ink cell that remains belongs to a component of at least \<open>minSize\<close> cells; cells
  that were not ink are unchanged, and the number of ink cells does not grow.
\<close>

theorem despeckle_components:
  assumes w: "0 < w" and len: "length data = w * h"
  shows "(ink data i \<and> card (component data w h i) < minSize \<longrightarrow>
            (\<forall>j \<in> component data w h i. despeckleBitmask data w h minSize ! j = 0))
       \<and> (ink data i \<and> minSize \<le> card (component data w h i) \<longrightarrow>
            (\<forall>j \<in> component data w h i. despeckleBitmask data w h minSize ! j = 1)
            \<and> component (despeckleBitmask data w h minSize) w h i = component data w h i)
       \<and> (\<forall>j. ink (despeckleBitmask data w h minSize) j \<longrightarrow>
            minSize \<le> card (component (despeckleBitmask data w h minSize) w h j))
       \<and> (\<forall>j < length data. \<not> ink data j \<longrightarrow> despeckleBitmask data w h minSize ! j = data ! j)
       \<and> length (despeckleBitmask data w h minSize) = length data
       \<and> inkCount (despeckleBitmask data w h minSize) \<le> inkCount data"
proof -
  define out where "out = despeckleBitmask data w h minSize"
  note ch = despeckle_characterisation [OF w len, where minSize = minSize]
  have small: "\<forall>j \<in> component data w h i. out ! j = 0"
    if "ink data i" "card (component data w h i) < minSize"
  proof
    fix j assume j: "j \<in> component data w h i"
    have "ink data j" using that(1) j by (rule component_ink)
    moreover have "component data w h j = component data w h i" using j by (rule component_eq)
    ultimately show "out ! j = 0" using ch(2) [of j] that(2) by (simp add: out_def ink_def)
  qed
  have large: "\<forall>j \<in> component data w h i. out ! j = 1"
    if "ink data i" "minSize \<le> card (component data w h i)"
  proof
    fix j assume j: "j \<in> component data w h i"
    have "ink data j" using that(1) j by (rule component_ink)
    moreover have "component data w h j = component data w h i" using j by (rule component_eq)
    ultimately show "out ! j = 1" using ch(2) [of j] that(2) by (simp add: out_def ink_def)
  qed
  have rest: "\<forall>j. ink out j \<longrightarrow> minSize \<le> card (component out w h j)"
  proof (intro allI impI)
    fix j assume "ink out j"
    then have "ink data j" "minSize \<le> card (component data w h j)"
      using despeckle_ink [OF w len, of minSize j] by (simp_all add: out_def)
    then show "minSize \<le> card (component out w h j)"
      using despeckle_keeps_component [OF w len] by (simp add: out_def)
  qed
  have bg: "\<forall>j < length data. \<not> ink data j \<longrightarrow> out ! j = data ! j"
    using ch(2) by (simp add: out_def)
  have "\<forall>j < length out. out ! j = 1 \<longrightarrow> data ! j = 1"
    using ch by (auto simp: out_def split: if_splits)
  then have cnt: "inkCount out \<le> inkCount data"
    using ch(1) by (intro inkCount_mono) (simp_all add: out_def)
  show ?thesis
    using small large rest bg cnt ch(1) despeckle_keeps_component [OF w len]
    unfolding out_def by blast
qed

lemma despeckle_maskTwoBlobs:
  "despeckleBitmask maskTwoBlobs 5 9 20 = replicate 20 0 @ replicate 25 1"
  unfolding maskTwoBlobs_def by code_simp

theorem despeckle_components_witness:
  "0 < (5::nat) \<and> length maskTwoBlobs = 5 * 9
   \<and> ink maskTwoBlobs 0 \<and> card (component maskTwoBlobs 5 9 0) < 20
   \<and> despeckleBitmask maskTwoBlobs 5 9 20 ! 0 = 0
   \<and> ink maskTwoBlobs 20 \<and> 20 \<le> card (component maskTwoBlobs 5 9 20)
   \<and> despeckleBitmask maskTwoBlobs 5 9 20 ! 20 = 1
   \<and> ink (despeckleBitmask maskTwoBlobs 5 9 20) 20
   \<and> 20 \<le> card (component (despeckleBitmask maskTwoBlobs 5 9 20) 5 9 20)
   \<and> inkCount (despeckleBitmask maskTwoBlobs 5 9 20) \<le> inkCount maskTwoBlobs"
proof -
  have len: "length maskTwoBlobs = 5 * 9" by (simp add: maskTwoBlobs_def)
  have i0: "ink maskTwoBlobs 0" and i20: "ink maskTwoBlobs 20"
    by (simp_all add: ink_def maskTwoBlobs_def nth_append)
  have o: "despeckleBitmask maskTwoBlobs 5 9 20 ! 0 = 0" "despeckleBitmask maskTwoBlobs 5 9 20 ! 20 = 1"
    by (simp_all add: despeckle_maskTwoBlobs nth_append)
  have c0: "card (component maskTwoBlobs 5 9 0) < 20"
    using despeckle_characterisation(2) [where w = 5 and data = maskTwoBlobs and h = 9 and j = 0
        and minSize = 20] len o(1) i0
    by (simp add: ink_def split: if_splits)
  have c20: "20 \<le> card (component maskTwoBlobs 5 9 20)"
    using despeckle_characterisation(2) [where w = 5 and data = maskTwoBlobs and h = 9 and j = 20
        and minSize = 20] len o(2) i20
    by (simp add: ink_def split: if_splits)
  have io: "ink (despeckleBitmask maskTwoBlobs 5 9 20) 20"
    by (simp add: despeckle_maskTwoBlobs ink_def nth_append)
  have "(0::nat) < 5" by simp
  from despeckle_components [OF this len, where minSize = 20 and i = 20] io
  have "20 \<le> card (component (despeckleBitmask maskTwoBlobs 5 9 20) 5 9 20)"
    "inkCount (despeckleBitmask maskTwoBlobs 5 9 20) \<le> inkCount maskTwoBlobs"
    by blast+
  with len i0 i20 o c0 c20 io show ?thesis by simp
qed
section \<open>The stroke walker\<close>

subsection \<open>The loops are bounded by their counters\<close>

lemma walkStep_points:
  "length (strokePoints (walkStep pixels pWidth pHeight st)) = Suc (length (strokePoints st))"
  by (simp add: walkStep_def Let_def split: option.splits)

lemma walkLoop_bound:
  "strokeSafety st \<le> 10000 \<Longrightarrow> length (strokePoints st) = strokeSafety st \<Longrightarrow>
     strokeSafety (walkLoop pixels pWidth pHeight st) \<le> 10000
     \<and> length (strokePoints (walkLoop pixels pWidth pHeight st))
         = strokeSafety (walkLoop pixels pWidth pHeight st)"
proof (induction pixels pWidth pHeight st rule: walkLoop.induct)
  case (1 pixels pWidth pHeight st)
  show ?case
  proof (cases "tracing st \<and> strokeSafety st < 10000")
    case True
    have eq: "walkLoop pixels pWidth pHeight st
        = walkLoop pixels pWidth pHeight (walkStep pixels pWidth pHeight st)"
      using True by (subst walkLoop.simps) simp
    have "strokeSafety (walkStep pixels pWidth pHeight st) \<le> 10000"
      using True by (simp add: walkStep_safety)
    moreover have "length (strokePoints (walkStep pixels pWidth pHeight st))
        = strokeSafety (walkStep pixels pWidth pHeight st)"
      using "1.prems"(2) by (simp add: walkStep_safety walkStep_points)
    ultimately show ?thesis unfolding eq using "1.IH" [OF True] by blast
  next
    case False
    then have "walkLoop pixels pWidth pHeight st = st"
      by (subst walkLoop.simps) (simp only: if_False)
    then show ?thesis using "1.prems" by simp
  qed
qed

lemma walk_bounded:
  "strokeSafety (walkLoop pixels pWidth pHeight (walkStart pos visited)) \<le> 10000
   \<and> length (strokePoints (walkLoop pixels pWidth pHeight (walkStart pos visited)))
       = strokeSafety (walkLoop pixels pWidth pHeight (walkStart pos visited))"
  by (rule walkLoop_bound) (simp_all add: walkStart_def)

lemma seekStep_inv:
  assumes "seekInv st" "safetyCounter st < 10000"
  shows "seekInv (seekStep pixels pWidth pHeight st)"
proof (cases "fst (scanSeed (s_visited st) (globalSearchIdx st))")
  case None
  then show ?thesis using assms by (simp add: seekStep_def seekInv_def Let_def)
next
  case (Some startIdx)
  define walked where "walked = walkLoop pixels pWidth pHeight
                            (walkStart (getXY pWidth startIdx) (s_visited st))"
  have b: "length (strokePoints walked) \<le> 10000"
    using walk_bounded [of pixels pWidth pHeight "getXY pWidth startIdx" "s_visited st"]
    by (simp add: walked_def)
  show ?thesis
    using assms Some b
    by (simp add: seekStep_def seekInv_def Let_def walked_def strokeOf_def)
qed

lemma seekLoop_inv:
  "seekInv st \<Longrightarrow> seekInv (seekLoop pixels pWidth pHeight st)"
proof (induction pixels pWidth pHeight st rule: seekLoop.induct)
  case (1 pixels pWidth pHeight st)
  show ?case
  proof (cases "active st \<and> safetyCounter st < 10000")
    case True
    have eq: "seekLoop pixels pWidth pHeight st
        = seekLoop pixels pWidth pHeight (seekStep pixels pWidth pHeight st)"
      using True by (subst seekLoop.simps) simp
    have "seekInv (seekStep pixels pWidth pHeight st)"
      using "1.prems" True by (simp add: seekStep_inv)
    then show ?thesis unfolding eq by (rule "1.IH" [OF True])
  next
    case False
    then have "seekLoop pixels pWidth pHeight st = st"
      by (subst seekLoop.simps) (simp only: if_False)
    then show ?thesis using "1.prems" by simp
  qed
qed

text \<open>
  C9. For every mask and every pixel buffer the stroke extraction terminates (both loops
  are total functions, their measures being the distance of the counters from 10000): the
  stroke-seeking loop ends with \<^verbatim>\<open>safetyCounter\<close>, which counts its rounds, at most 10000,
  and each walk of a stroke ends with \<^verbatim>\<open>strokeSafety\<close>, which counts its rounds and its
  points, at most 10000.
\<close>

theorem extraction_bounded:
  "safetyCounter (extractStrokes pixels pWidth pHeight visited) \<le> 10000
   \<and> length (rawStrokes (extractStrokes pixels pWidth pHeight visited))
       \<le> safetyCounter (extractStrokes pixels pWidth pHeight visited)
   \<and> list_all (\<lambda>s. length (points s) \<le> 10000)
       (rawStrokes (extractStrokes pixels pWidth pHeight visited))
   \<and> strokeSafety (walkLoop pixels pWidth pHeight (walkStart pos visited)) \<le> 10000
   \<and> length (strokePoints (walkLoop pixels pWidth pHeight (walkStart pos visited)))
       = strokeSafety (walkLoop pixels pWidth pHeight (walkStart pos visited))"
proof -
  have "seekInv \<lparr>globalSearchIdx = 0, active = True, safetyCounter = 0, s_visited = visited,
                  rawStrokes = []\<rparr>"
    by (simp add: seekInv_def)
  then have "seekInv (extractStrokes pixels pWidth pHeight visited)"
    unfolding extractStrokes_def by (rule seekLoop_inv)
  then have "safetyCounter (extractStrokes pixels pWidth pHeight visited) \<le> 10000"
    "length (rawStrokes (extractStrokes pixels pWidth pHeight visited))
       \<le> safetyCounter (extractStrokes pixels pWidth pHeight visited)"
    "list_all (\<lambda>s. length (points s) \<le> 10000)
       (rawStrokes (extractStrokes pixels pWidth pHeight visited))"
    by (simp_all add: seekInv_def list_all_iff)
  with walk_bounded [of pixels pWidth pHeight pos visited] show ?thesis by simp
qed

subsection \<open>The recorded thickness\<close>

text \<open>
  What the ray cast computes: from a position inside the image it is the length of the
  shortest ray when that is below 20, and 1 otherwise.
\<close>

lemma first_blocked:
  fixes B :: "nat \<Rightarrow> bool"
  assumes L: "L = Suc (length (takeWhile (\<lambda>r. \<not> B r) [1..<N]))"
  shows "\<And>r. 1 \<le> r \<Longrightarrow> r < L \<Longrightarrow> \<not> B r" and "L < N \<Longrightarrow> B L"
proof -
  define xs where "xs = [1..<N]"
  define k where "k = length (takeWhile (\<lambda>r. \<not> B r) xs)"
  have Lk: "L = Suc k" by (simp add: L k_def xs_def)
  have kle: "k \<le> length xs" unfolding k_def by (rule length_takeWhile_le)
  show "\<not> B r" if r: "1 \<le> r" "r < L" for r
  proof -
    have i: "r - 1 < k" using r Lk by simp
    then have "takeWhile (\<lambda>r. \<not> B r) xs ! (r - 1) \<in> set (takeWhile (\<lambda>r. \<not> B r) xs)"
      unfolding k_def by (rule nth_mem)
    then have "\<not> B (takeWhile (\<lambda>r. \<not> B r) xs ! (r - 1))" by (rule set_takeWhileD [THEN conjunct2])
    moreover have "takeWhile (\<lambda>r. \<not> B r) xs ! (r - 1) = xs ! (r - 1)"
      using i unfolding k_def by (rule takeWhile_nth)
    moreover have "xs ! (r - 1) = r" using i kle r by (simp add: xs_def)
    ultimately show ?thesis by simp
  qed
  show "B L" if "L < N"
  proof -
    have klt: "k < length xs" using that Lk by (simp add: xs_def)
    then have "\<not> \<not> B (xs ! k)" unfolding k_def by (rule nth_length_takeWhile)
    moreover have "xs ! k = Suc k" using klt by (simp add: xs_def)
    ultimately show ?thesis by (simp add: Lk)
  qed
qed

lemma rayLength_props:
  "1 \<le> rayLength visited pWidth pHeight cx cy d"
  "1 \<le> r \<Longrightarrow> r < rayLength visited pWidth pHeight cx cy d
     \<Longrightarrow> \<not> blockedAt visited pWidth pHeight cx cy d r"
  "rayLength visited pWidth pHeight cx cy d < pWidth + pHeight + 2
     \<Longrightarrow> blockedAt visited pWidth pHeight cx cy d (rayLength visited pWidth pHeight cx cy d)"
proof -
  have L: "rayLength visited pWidth pHeight cx cy d
      = Suc (length (takeWhile (\<lambda>r. \<not> blockedAt visited pWidth pHeight cx cy d r)
                [1..<pWidth + pHeight + 2]))"
    by (simp add: rayLength_def blockedAt_def)
  show "1 \<le> rayLength visited pWidth pHeight cx cy d" by (simp add: rayLength_def)
  show "\<not> blockedAt visited pWidth pHeight cx cy d r"
    if "1 \<le> r" "r < rayLength visited pWidth pHeight cx cy d"
    using first_blocked(1) [OF L that] .
  show "blockedAt visited pWidth pHeight cx cy d (rayLength visited pWidth pHeight cx cy d)"
    if "rayLength visited pWidth pHeight cx cy d < pWidth + pHeight + 2"
    using first_blocked(2) [OF L that] .
qed

lemma hitBackground_blocked:
  "hitBackground visited pWidth pHeight cx cy r \<longleftrightarrow>
     blockedAt visited pWidth pHeight cx cy (1, 0) r \<or> blockedAt visited pWidth pHeight cx cy (- 1, 0) r
     \<or> blockedAt visited pWidth pHeight cx cy (0, 1) r \<or> blockedAt visited pWidth pHeight cx cy (0, - 1) r"
  by (simp add: hitBackground_def blockedAt_def blockedCell_def)

lemma ray_leaves_grid:
  assumes "inGrid pWidth pHeight (cx, cy)" "d \<in> {(1, 0), (- 1, 0), (0, 1), (0, - 1)}"
  shows "rayLength visited pWidth pHeight cx cy d < pWidth + pHeight + 2"
proof (rule ccontr)
  assume "\<not> rayLength visited pWidth pHeight cx cy d < pWidth + pHeight + 2"
  then have big: "pWidth + pHeight + 1 < rayLength visited pWidth pHeight cx cy d" by simp
  have "\<not> blockedAt visited pWidth pHeight cx cy d (pWidth + pHeight + 1)"
    by (rule rayLength_props(2) [OF _ big]) simp
  then have "inGrid pWidth pHeight (cx + int (pWidth + pHeight + 1) * fst d,
      cy + int (pWidth + pHeight + 1) * snd d)"
    by (simp add: blockedAt_def blockedCell_def)
  then show False using assms by (auto simp: inGrid_def)
qed

lemma shortestRay_props:
  assumes g: "inGrid pWidth pHeight (cx, cy)"
    and S_def: "S = shortestRay visited pWidth pHeight cx cy"
  shows "1 \<le> S" and "\<And>r. 1 \<le> r \<Longrightarrow> r < S \<Longrightarrow> \<not> hitBackground visited pWidth pHeight cx cy r"
    and "hitBackground visited pWidth pHeight cx cy S"
proof -
  let ?L = "rayLength visited pWidth pHeight cx cy"
  show "1 \<le> S" using rayLength_props(1) [of visited pWidth pHeight cx cy]
    by (simp add: S_def shortestRay_def)
  show "\<not> hitBackground visited pWidth pHeight cx cy r" if r: "1 \<le> r" "r < S" for r
  proof -
    have "r < ?L (1, 0)" "r < ?L (- 1, 0)" "r < ?L (0, 1)" "r < ?L (0, - 1)"
      using r(2) by (simp_all add: S_def shortestRay_def)
    then show ?thesis
      using rayLength_props(2) [OF r(1)] by (simp add: hitBackground_blocked)
  qed
  have "S = ?L (1, 0) \<or> S = ?L (- 1, 0) \<or> S = ?L (0, 1) \<or> S = ?L (0, - 1)"
    by (auto simp: S_def shortestRay_def min_def)
  then obtain d where d: "d \<in> {(1, 0), (- 1, 0), (0, 1), (0, - 1)}" "S = ?L d" by auto
  have "blockedAt visited pWidth pHeight cx cy d S"
    unfolding d(2) by (rule rayLength_props(3) [OF ray_leaves_grid [OF g d(1)]])
  then show "hitBackground visited pWidth pHeight cx cy S"
    using d(1) by (auto simp: hitBackground_blocked)
qed

lemma raycastLoop_first_hit:
  "r \<le> S \<Longrightarrow> (\<forall>r'. r \<le> r' \<and> r' < S \<longrightarrow> \<not> hitBackground visited pWidth pHeight cx cy r')
     \<Longrightarrow> hitBackground visited pWidth pHeight cx cy S
     \<Longrightarrow> raycastLoop visited pWidth pHeight cx cy radius r = (if S < 20 then S else radius)"
proof (induction visited pWidth pHeight cx cy radius r rule: raycastLoop.induct)
  case (1 visited pWidth pHeight cxInt cyInt radius r)
  show ?case
  proof (cases "r < 20")
    case False
    then show ?thesis using "1.prems"(1) by (subst raycastLoop.simps) simp
  next
    case True
    show ?thesis
    proof (cases "hitBackground visited pWidth pHeight cxInt cyInt r")
      case hit: True
      then have "r = S" using "1.prems"(1,2) by (cases "r < S") auto
      then show ?thesis using True hit by (subst raycastLoop.simps) simp
    next
      case miss: False
      then have "r \<noteq> S" using "1.prems"(3) by auto
      then have le: "Suc r \<le> S" using "1.prems"(1) by simp
      have "\<forall>r'. Suc r \<le> r' \<and> r' < S \<longrightarrow> \<not> hitBackground visited pWidth pHeight cxInt cyInt r'"
        using "1.prems"(2) by simp
      from "1.IH" [OF True miss le this "1.prems"(3)] show ?thesis
        using True miss by (subst raycastLoop.simps) simp
    qed
  qed
qed

lemma raycastRadius_in_range:
  assumes "inGrid pWidth pHeight (cx, cy)"
  shows "raycastRadius visited pWidth pHeight cx cy
     = (if shortestRay visited pWidth pHeight cx cy < 20
        then shortestRay visited pWidth pHeight cx cy else 1)"
  unfolding raycastRadius_def
  using shortestRay_props [OF assms refl, where visited = visited]
  by (intro raycastLoop_first_hit) simp_all

lemma walkStep_thickness:
  "map pz (strokePoints (walkStep pixels pWidth pHeight st))
   = map pz (strokePoints st)
     @ [Some (thicknessNorm (raycastRadius (w_visited st) pWidth pHeight
                               (jsRound (fst (currentPos st))) (jsRound (snd (currentPos st))))
                pWidth)]"
  by (simp add: walkStep_def Let_def split: option.splits)

lemma scanSeed_first:
  "g \<le> n \<Longrightarrow> (\<forall>i. g \<le> i \<and> i < n \<longrightarrow> visited ! i \<noteq> 1) \<Longrightarrow> n < length visited
     \<Longrightarrow> visited ! n = 1 \<Longrightarrow> scanSeed visited g = (Some n, n)"
proof (induction visited g rule: scanSeed.induct)
  case (1 visited g)
  have lt: "g < length visited" using "1.prems"(1,3) by simp
  show ?case
  proof (cases "visited ! g = 1")
    case True
    then have "g = n" using "1.prems"(1,2) by (cases "g < n") auto
    then show ?thesis using True lt by (subst scanSeed.simps) simp
  next
    case False
    then have "g \<noteq> n" using "1.prems"(4) by auto
    then have "Suc g \<le> n" using "1.prems"(1) by simp
    moreover have "\<forall>i. Suc g \<le> i \<and> i < n \<longrightarrow> visited ! i \<noteq> 1" using "1.prems"(2) by simp
    ultimately have "scanSeed visited (Suc g) = (Some n, n)"
      using "1.IH" [OF lt False] "1.prems"(3,4) by blast
    then show ?thesis using False lt by (subst scanSeed.simps) simp
  qed
qed

lemma jsRound_int: "jsRound (real_of_int k) = k"
  by (simp add: jsRound_def)

lemma shortestRay_thick: "shortestRay thickMask 41 41 20 20 = 21"
  unfolding thickMask_def by code_simp

lemma raycastRadius_thick: "raycastRadius thickMask 41 41 20 20 = 1"
  unfolding thickMask_def by code_simp

lemma scanSeed_thick: "scanSeed thickMask 0 = (Some 840, 840)"
  by (rule scanSeed_first) (simp_all add: thickMask_def nth_append)

lemma getXY_thick: "getXY 41 840 = (20, 20)"
  by (simp add: getXY_def)

text \<open>
  C5, at an input where it fails. In the mask \<open>thickMask\<close> the next stroke is seeded at
  \<open>(20, 20)\<close>, where each of the four rays is 21 cells long; the claimed thickness is
  \<open>2 * 21 / 41 * 10000\<close>, and the first point the walker records there has the thickness
  \<open>2 * 1 / 41 * 10000\<close>, for any pixel buffer.
\<close>

theorem raycast_thick_region:
  "scanSeed thickMask 0 = (Some 840, 840)
   \<and> getXY 41 840 = (20, 20)
   \<and> inGrid 41 41 (20, 20)
   \<and> shortestRay thickMask 41 41 20 20 = 21
   \<and> map pz (strokePoints (walkStep pixels 41 41 (walkStart (getXY 41 840) thickMask)))
       = [Some (thicknessNorm 1 41)]
   \<and> thicknessNorm 1 41 = 20000 / 41
   \<and> thicknessNorm (shortestRay thickMask 41 41 20 20) 41 = 420000 / 41"
proof -
  have r: "jsRound 20 = 20" using jsRound_int [of 20] by simp
  have "map pz (strokePoints (walkStep pixels 41 41 (walkStart (20, 20) thickMask)))
       = [Some (thicknessNorm 1 41)]"
    unfolding walkStep_thickness by (simp add: walkStart_def r raycastRadius_thick)
  then show ?thesis
    by (simp add: scanSeed_thick getXY_thick shortestRay_thick thicknessNorm_def inGrid_def)
qed
section \<open>The tracer on a blank image\<close>

lemma buildMask_blank:
  assumes "list_all isBackground pixels"
  shows "buildMask pixels pWidth pHeight = replicate (pWidth * pHeight) 0"
proof -
  have "\<not> (idx < length pixels \<and> luminance (pixels ! idx) < 200 \<and> alpha (pixels ! idx) > 50)" for idx
    using assms by (auto simp: list_all_length isBackground_def)
  then have "buildMask pixels pWidth pHeight = map (\<lambda>idx. 0) [0..<pWidth * pHeight]"
    unfolding buildMask_def by simp
  then show ?thesis by (simp add: map_replicate_const)
qed

lemma despeckle_blank:
  assumes "0 < w"
  shows "despeckleBitmask (replicate (w * h) 0) w h minSize = replicate (w * h) 0"
proof (rule nth_equalityI)
  have len: "length (replicate (w * h) (0::nat)) = w * h" by simp
  note ch = despeckle_characterisation [OF assms len, where minSize = minSize]
  show "length (despeckleBitmask (replicate (w * h) 0) w h minSize) = length (replicate (w * h) (0::nat))"
    by (rule ch(1))
  fix j assume "j < length (despeckleBitmask (replicate (w * h) 0) w h minSize)"
  then have j: "j < length (replicate (w * h) (0::nat))" using ch(1) by simp
  then have "\<not> ink (replicate (w * h) 0) j" by (simp add: ink_def)
  then show "despeckleBitmask (replicate (w * h) 0) w h minSize ! j = replicate (w * h) 0 ! j"
    using ch(2) [OF j] by simp
qed

lemma scanSeed_none:
  "\<forall>i < length visited. visited ! i \<noteq> 1 \<Longrightarrow> fst (scanSeed visited g) = None"
proof (induction visited g rule: scanSeed.induct)
  case (1 visited g)
  show ?case
  proof (cases "g < length visited")
    case True
    then have "visited ! g \<noteq> 1" using "1.prems" by simp
    with True have "scanSeed visited g = scanSeed visited (Suc g)"
      by (subst scanSeed.simps) simp
    then show ?thesis using "1.IH" [OF True \<open>visited ! g \<noteq> 1\<close> "1.prems"] by simp
  next
    case False
    then show ?thesis by (subst scanSeed.simps) simp
  qed
qed

lemma extractStrokes_blank:
  assumes "\<forall>i < length visited. visited ! i \<noteq> 1"
  shows "rawStrokes (extractStrokes pixels pWidth pHeight visited) = []"
    and "safetyCounter (extractStrokes pixels pWidth pHeight visited) = 1"
proof -
  define st0 where "st0 = \<lparr>globalSearchIdx = 0, active = True, safetyCounter = 0,
      s_visited = visited, rawStrokes = []\<rparr>"
  define st1 where "st1 = seekStep pixels pWidth pHeight st0"
  have n: "fst (scanSeed visited 0) = None" using assms by (rule scanSeed_none)
  have s1: "\<not> active st1" "rawStrokes st1 = []" "safetyCounter st1 = 1"
    using n by (simp_all add: st1_def st0_def seekStep_def Let_def)
  have "seekLoop pixels pWidth pHeight st0 = seekLoop pixels pWidth pHeight st1"
    by (subst seekLoop.simps) (simp add: st0_def st1_def)
  also have "\<dots> = st1" using s1(1) by (subst seekLoop.simps) simp
  finally have "extractStrokes pixels pWidth pHeight visited = st1"
    by (simp add: extractStrokes_def st0_def)
  then show "rawStrokes (extractStrokes pixels pWidth pHeight visited) = []"
    and "safetyCounter (extractStrokes pixels pWidth pHeight visited) = 1"
    using s1 by simp_all
qed

lemma traceStrokes_blank:
  assumes "list_all isBackground pixels" "0 < pWidth"
  shows "rawStrokes (extractStrokes pixels pWidth pHeight
            (despeckleBitmask (buildMask pixels pWidth pHeight) pWidth pHeight 20)) = []"
    and "traceStrokes pixels pWidth pHeight = Inr []"
proof -
  have m: "despeckleBitmask (buildMask pixels pWidth pHeight) pWidth pHeight 20
      = replicate (pWidth * pHeight) 0"
    by (simp only: buildMask_blank [OF assms(1)] despeckle_blank [OF assms(2)])
  have "\<forall>i < length (replicate (pWidth * pHeight) (0::nat)). replicate (pWidth * pHeight) (0::nat) ! i \<noteq> 1"
    by simp
  from extractStrokes_blank(1) [OF this]
  show r: "rawStrokes (extractStrokes pixels pWidth pHeight
            (despeckleBitmask (buildMask pixels pWidth pHeight) pWidth pHeight 20)) = []"
    by (simp only: m)
  show "traceStrokes pixels pWidth pHeight = Inr []"
    by (simp add: traceStrokes_def Let_def r optimizeStrokeOrder_def mergeStrokes_def
        List.map_filter_simps)
qed

text \<open>
  C8. For every loaded image (with a 2D context and a processing size that is not zero)
  none of whose pixels is ink, the walker finds no raw stroke and the tracer resolves with
  an empty list of strokes.
\<close>

theorem blank_image_resolves:
  assumes "hasContext img" and "0 < processWidth img" and "0 < processHeight img"
    and "list_all isBackground (canvasPixels img)"
  shows "rawStrokes (extractStrokes (canvasPixels img) (processWidth img) (processHeight img)
            (despeckleBitmask (buildMask (canvasPixels img) (processWidth img) (processHeight img))
               (processWidth img) (processHeight img) 20)) = []
       \<and> analyzeSignatureLocal (Some img)
           = Inr \<lparr>strokes = [], original_size = (img_width img, img_height img)\<rparr>"
  using assms traceStrokes_blank [OF assms(4) assms(2)]
  by (simp add: analyzeSignatureLocal_def Let_def)

theorem blank_image_resolves_witness:
  "hasContext blankImage \<and> 0 < processWidth blankImage \<and> 0 < processHeight blankImage
   \<and> list_all isBackground (canvasPixels blankImage)
   \<and> analyzeSignatureLocal (Some blankImage) = Inr \<lparr>strokes = [], original_size = (2, 2)\<rparr>"
proof -
  have c: "hasContext blankImage" by (simp add: blankImage_def)
  have w: "0 < processWidth blankImage" by (simp add: processWidth_def blankImage_def Let_def)
  have h: "0 < processHeight blankImage" by (simp add: processHeight_def blankImage_def Let_def)
  have "isBackground whitePixel" by (simp add: isBackground_def whitePixel_def luminance_def)
  then have b: "list_all isBackground (canvasPixels blankImage)"
    by (simp add: blankImage_def list_all_iff)
  from blank_image_resolves [OF c w h b] c w h b show ?thesis by (simp add: blankImage_def)
qed
section \<open>The motion planner: timing\<close>

subsection \<open>The redundant-point filter keeps the ends\<close>

lemma filterRedundant_fold_props:
  fixes f :: "RawPoint list \<Rightarrow> RawPoint \<Rightarrow> RawPoint list"
  defines "f \<equiv> (\<lambda>res cur.
                       let prev = last res;
                           d2 = (px cur - px prev)\<^sup>2 + (py cur - py prev)\<^sup>2
                       in if d2 > 0.1 then res @ [cur] else res)"
  shows "res \<noteq> [] \<Longrightarrow> foldl f res xs \<noteq> [] \<and> hd (foldl f res xs) = hd res"
proof (induction xs arbitrary: res)
  case Nil
  then show ?case by simp
next
  case (Cons a xs)
  have "f res a \<noteq> []" "hd (f res a) = hd res"
    using Cons.prems by (auto simp: f_def Let_def)
  with Cons.IH [of "f res a"] show ?case by simp
qed

lemma filterRedundantPoints_nonempty:
  "pts \<noteq> [] \<Longrightarrow> filterRedundantPoints pts \<noteq> []"
  using filterRedundant_fold_props [of "[hd pts]" "tl pts"]
  by (auto simp: filterRedundantPoints_def Let_def)

lemma filterRedundantPoints_hd:
  "pts \<noteq> [] \<Longrightarrow> hd (filterRedundantPoints pts) = hd pts"
  using filterRedundant_fold_props [of "[hd pts]" "tl pts"]
  by (auto simp: filterRedundantPoints_def Let_def)

lemma filterRedundantPoints_last:
  "pts \<noteq> [] \<Longrightarrow> px (last (filterRedundantPoints pts)) = px (last pts)
     \<and> py (last (filterRedundantPoints pts)) = py (last pts)"
  by (auto simp: filterRedundantPoints_def Let_def)

lemma sorted_le_last:
  fixes ts :: "real list"
  shows "sorted ts \<Longrightarrow> ts \<noteq> [] \<Longrightarrow> u \<in> set ts \<Longrightarrow> u \<le> last ts"
  by (induction ts) (auto split: if_splits)

lemma segmentDt_pos:
  "baseMsPerPx c = Some b \<Longrightarrow> \<exists>m. segmentDt c d q = Num m \<and> 0 < m"
  by (simp add: segmentDt_def max_def)

lemma traverseStep_first:
  "timedFrom (Num t) (traverseStep c cw pp ([], Num t) 0)"
  unfolding timedFrom_def traverseStep_def
  by (rule exI [of _ "[t]"]) (simp add: Let_def)

lemma traverseStep_later:
  assumes "baseMsPerPx c = Some b" "timedFrom start st" "i \<noteq> 0"
  shows "timedFrom start (traverseStep c cw pp st i)"
proof -
  from assms(2) obtain ts where ts: "ts \<noteq> []" "map time (fst st) = map Num ts" "sorted ts"
      "start = Num (hd ts)" "snd st = Num (last ts)"
    unfolding timedFrom_def by blast
  obtain m where m: "segmentDt c (distP (pp ! i) (pp ! (i - 1))) (speedPenalty c pp i) = Num m" "0 < m"
    using segmentDt_pos [OF assms(1)] by blast
  have srt: "sorted (ts @ [last ts + m])"
  proof -
    have "\<forall>u\<in>set ts. u \<le> last ts"
      using ts(1,3) by (simp add: sorted_le_last)
    with ts(3) m(2) show ?thesis by (auto simp: sorted_append intro: order_trans)
  qed
  show ?thesis
    unfolding timedFrom_def
    apply (rule exI [of _ "ts @ [last ts + m]"])
    using ts m srt assms(3) by (simp add: traverseStep_def Let_def)
qed

lemma traverse_fold_later:
  assumes "baseMsPerPx c = Some b"
  shows "timedFrom start st \<Longrightarrow> 0 \<notin> set is \<Longrightarrow>
         timedFrom start (foldl (traverseStep c cw pp) st is)"
proof (induction "is" arbitrary: st)
  case Nil
  then show ?case by simp
next
  case (Cons i "is")
  then show ?case using traverseStep_later [OF assms, of start st i] by simp
qed

lemma traverse_all:
  assumes "baseMsPerPx c = Some b" "0 < n"
  shows "timedFrom (Num t) (foldl (traverseStep c cw pp) ([], Num t) [0..<n])"
proof -
  have "[0..<n] = 0 # [1..<n]" using assms(2) by (simp add: upt_conv_Cons)
  then show ?thesis
    using traverse_fold_later [OF assms(1), of "Num t" "traverseStep c cw pp ([], Num t) 0" "[1..<n]"]
      traverseStep_first [of t c cw pp]
    by simp
qed

lemma timedFrom_timedPath:
  assumes "timedFrom start st"
  shows "timedPath \<lparr>path_id = n, path_points = fst st, startTime = start, endTime = snd st\<rparr>"
proof -
  from assms obtain ts where ts: "ts \<noteq> []" "map time (fst st) = map Num ts" "sorted ts"
      "start = Num (hd ts)" "snd st = Num (last ts)"
    unfolding timedFrom_def by blast
  have ne: "fst st \<noteq> []"
  proof
    assume "fst st = []"
    then have "map Num ts = []" using ts(2) by simp
    then show False using ts(1) by simp
  qed
  have "successively (\<lambda>u v. jsle (Num u) (Num v)) ts"
    using ts(3) by (simp add: successively_if_sorted_wrt)
  then have "successively jsle (map Num ts)"
    by (simp add: successively_map)
  then have "successively jsle (map time (fst st))"
    using ts(2) by simp
  then have s: "successively (\<lambda>p q. jsle (time p) (time q)) (fst st)"
    by (simp add: successively_map)
  have "hd (map time (fst st)) = hd (map Num ts)" using ts(2) by simp
  then have h: "time (hd (fst st)) = Num (hd ts)"
    using ts(1) ne by (simp add: hd_map)
  have "last (map time (fst st)) = last (map Num ts)" using ts(2) by simp
  then have l: "time (last (fst st)) = Num (last ts)"
    using ts(1) ne by (simp add: last_map)
  have "hd ts \<le> last ts" using ts(1,3) by (simp add: sorted_le_last)
  with ne s h l ts(4,5) show ?thesis by (simp add: timedPath_def)
qed

lemma timedFrom_end: "timedFrom start st \<Longrightarrow> isNum (snd st) \<and> jsle start (snd st)"
  unfolding timedFrom_def by (auto simp: sorted_le_last)

lemma penLift_later: "\<exists>u. penLift q p0 (Num t) = Num u \<and> t \<le> u"
  by (cases q) (auto simp: penLift_def Let_def min_def)

lemma jsle_trans: "jsle u v \<Longrightarrow> jsle v w \<Longrightarrow> jsle u w"
  by (cases u; cases v; cases w) auto

lemma planStroke_inv:
  assumes c: "baseMsPerPx c = Some b" and inv: "planInv st"
  shows "planInv (planStroke c cw ch st ixs)"
proof (cases "length (points (snd ixs)) < 2")
  case True
  then show ?thesis using inv by (simp add: planStroke_def)
next
  case False
  define pp where "pp = filterRedundantPoints (map (mapPoint cw ch) (points (snd ixs)))"
  have "points (snd ixs) \<noteq> []" using False by auto
  then have ppne: "0 < length pp"
    using filterRedundantPoints_nonempty [of "map (mapPoint cw ch) (points (snd ixs))"]
    by (simp add: pp_def)
  obtain t where t: "currentTime st = Num t"
    using inv by (cases "currentTime st") (auto simp: planInv_def)
  obtain u where u: "penLift (prevEndPos st) (hd pp) (Num t) = Num u" "t \<le> u"
    using penLift_later by blast
  define walked where "walked = foldl (traverseStep c cw pp) ([], Num u) [0..<length pp]"
  have tf: "timedFrom (Num u) walked"
    unfolding walked_def by (rule traverse_all [OF c ppne])
  define P where "P = \<lparr>path_id = ''stroke-'' @ showNat (fst ixs), path_points = fst walked,
                    startTime = Num u, endTime = snd walked\<rparr>"
  have eq: "planStroke c cw ch st ixs =
      \<lparr>paths = paths st @ [P], currentTime = snd walked, prevEndPos = Some (last pp)\<rparr>"
    using False t u(1) by (simp add: planStroke_def Let_def pp_def walked_def P_def)
  have tp: "timedPath P" unfolding P_def by (rule timedFrom_timedPath [OF tf])
  have e: "isNum (snd walked)" "jsle (Num u) (snd walked)"
    using timedFrom_end [OF tf] by simp_all
  have link: "paths st \<noteq> [] \<Longrightarrow> jsle (endTime (last (paths st))) (startTime P)"
  proof -
    assume "paths st \<noteq> []"
    then have "jsle (endTime (last (paths st))) (Num t)" using inv t by (simp add: planInv_def)
    moreover have "jsle (Num t) (Num u)" using u(2) by simp
    ultimately show ?thesis unfolding P_def using jsle_trans by simp
  qed
  have "list_all timedPath (paths st)"
    "successively (\<lambda>P Q. jsle (endTime P) (startTime Q)) (paths st)"
    using inv by (simp_all add: planInv_def timedPlan_def)
  then have "timedPlan (paths st @ [P])"
    using tp link by (cases "paths st = []") (simp_all add: timedPlan_def successively_append_iff)
  moreover have "jsle (endTime P) (snd walked)"
    using e by (cases "snd walked") (auto simp: P_def)
  ultimately show ?thesis using e(1) by (simp add: eq planInv_def)
qed

lemma planFold_inv:
  assumes "baseMsPerPx c = Some b"
  shows "planInv st \<Longrightarrow> planInv (foldl (planStroke c cw ch) st xs)"
  by (induction xs arbitrary: st) (simp_all add: planStroke_inv [OF assms])

lemma physicsConstants_speed:
  "styleHasSpeed style \<Longrightarrow> \<exists>b. baseMsPerPx (physicsConstants style) = Some b"
proof (cases style)
  case None
  have "baseMsPerPx (physicsConstants None) = Some 1.2"
    by (simp add: physicsConstants_def)
  with None show ?thesis by blast
next
  case (Some s)
  assume "styleHasSpeed style"
  with Some obtain b where "base_ms_per_px s = Some b" by (auto simp: styleHasSpeed_def)
  with Some have "baseMsPerPx (physicsConstants style) = Some b"
    by (simp add: physicsConstants_def Let_def)
  then show ?thesis by blast
qed

subsection \<open>The planner on the concrete inputs\<close>

lemma sqrt_961: "sqrt 961 = 31" by (rule sqrt_of_square) simp_all

lemma sqrt_841: "sqrt 841 = 29" by (rule sqrt_of_square) simp_all

lemma sqrt_10000: "sqrt 10000 = 100" by (rule sqrt_of_square) simp_all

lemma sqrt_4761: "sqrt 4761 = 69" by (rule sqrt_of_square) simp_all

lemma sqrt_5041: "sqrt 5041 = 71" by (rule sqrt_of_square) simp_all

lemma upt_0_2: "[0..<2] = [0, 1]" by (simp add: upt_rec)

lemma filterRedundantPoints_pair:
  "(u' - u)\<^sup>2 + (v' - v)\<^sup>2 > 0.1 \<Longrightarrow>
     filterRedundantPoints [pt u v, pt u' v'] = [pt u v, pt u' v']"
  by (simp add: filterRedundantPoints_def pt_def Let_def)

lemma mapPoint_identity: "mapPoint 10000 10000 (pt u v) = pt u v"
  by (simp add: mapPoint_def pt_def)

lemmas planner_eval =
  traverseStep_def Let_def physicsConstants_def tremor_def pt_def segmentDt_def
  speedPenalty_def distP_def sqrt_10000 sqrt_961 sqrt_841 sqrt_4761 sqrt_5041

lemma planStroke_strokeA:
  "planStroke (physicsConstants None) 10000 10000 planStart (0, strokeA)
   = \<lparr>paths = [\<lparr>path_id = ''stroke-0'',
        path_points = [\<lparr>ph_x = Num 0, ph_y = Num 0, time = Num 0, lineWidth = 1.5, opacity = 1\<rparr>,
                       \<lparr>ph_x = Num 100, ph_y = Num 0, time = Num 120, lineWidth = 1.5, opacity = 1\<rparr>],
        startTime = Num 0, endTime = Num 120\<rparr>],
      currentTime = Num 120, prevEndPos = Some (pt 100 0)\<rparr>"
  apply (simp add: planStroke_def strokeA_def strokeOf_def planStart_def mapPoint_identity
      filterRedundantPoints_pair upt_0_2 penLift_def Let_def)
  apply (simp add: planner_eval)
  done

lemma generateMotionPlan_twoStrokes:
  "map (\<lambda>P. (startTime P, endTime P)) (generateMotionPlan (Some twoStrokes) 10000 10000 None)
   = [(Num 0, Num 120), (Num 185.5, Num 268.3)]"
  apply (simp add: generateMotionPlan_def twoStrokes_def enumerate_eq_zip upt_rec)
  apply (simp add: planStroke_def strokeA_def strokeB31_def strokeOf_def planStart_def
      mapPoint_identity filterRedundantPoints_pair upt_0_2 penLift_def Let_def)
  apply (simp add: planner_eval)
  done

subsection \<open>Monotonic timing\<close>

lemma generateMotionPlan_timed:
  assumes "styleHasSpeed style"
  shows "timedPlan (generateMotionPlan data canvasWidth canvasHeight style)"
proof (cases data)
  case None
  then show ?thesis by (simp add: generateMotionPlan_def timedPlan_def)
next
  case (Some d)
  obtain b where b: "baseMsPerPx (physicsConstants style) = Some b"
    using physicsConstants_speed [OF assms] by blast
  have "planInv planStart"
    by (simp add: planInv_def timedPlan_def planStart_def)
  from planFold_inv [OF b this] Some show ?thesis
    by (simp add: generateMotionPlan_def planInv_def)
qed

text \<open>Every round of the loop over the points pushes one point, whatever the style.\<close>

lemma traverse_fold_length:
  "length (fst (foldl (traverseStep c cw pp) st is)) = length (fst st) + length is"
proof (induction "is" arbitrary: st)
  case Nil
  then show ?case by simp
next
  case (Cons i "is")
  have "length (fst (traverseStep c cw pp st i)) = Suc (length (fst st))"
    by (simp add: traverseStep_def Let_def)
  with Cons.IH [of "traverseStep c cw pp st i"] show ?case by simp
qed

lemma planStroke_nonempty:
  assumes "list_all (\<lambda>P. path_points P \<noteq> []) (paths st)"
  shows "list_all (\<lambda>P. path_points P \<noteq> []) (paths (planStroke c cw ch st ixs))"
proof (cases "length (points (snd ixs)) < 2")
  case True
  then show ?thesis using assms by (simp add: planStroke_def)
next
  case False
  define pp where "pp = filterRedundantPoints (map (mapPoint cw ch) (points (snd ixs)))"
  have "points (snd ixs) \<noteq> []" using False by auto
  then have "pp \<noteq> []"
    using filterRedundantPoints_nonempty [of "map (mapPoint cw ch) (points (snd ixs))"]
    by (simp add: pp_def)
  then have "fst (foldl (traverseStep c cw pp) ([], start) [0..<length pp]) \<noteq> []" for start
    using traverse_fold_length [of c cw pp "([], start)" "[0..<length pp]"] by auto
  then show ?thesis using False assms by (simp add: planStroke_def Let_def pp_def)
qed

lemma planFold_nonempty:
  "list_all (\<lambda>P. path_points P \<noteq> []) (paths st)
   \<Longrightarrow> list_all (\<lambda>P. path_points P \<noteq> []) (paths (foldl (planStroke c cw ch) st xs))"
  by (induction xs arbitrary: st) (simp_all add: planStroke_nonempty)

lemma generateMotionPlan_nonempty:
  "list_all (\<lambda>P. path_points P \<noteq> []) (generateMotionPlan data canvasWidth canvasHeight style)"
proof (cases data)
  case None
  then show ?thesis by (simp add: generateMotionPlan_def)
next
  case (Some d)
  have "list_all (\<lambda>P. path_points P \<noteq> []) (paths planStart)" by (simp add: planStart_def)
  from planFold_nonempty [OF this] Some show ?thesis by (simp add: generateMotionPlan_def)
qed

lemma generateMotionPlan_noSpeed:
  "generateMotionPlan (Some oneStroke) 10000 10000 (Some noSpeedStyle)
   = [\<lparr>path_id = ''stroke-0'',
       path_points = [\<lparr>ph_x = Num 0, ph_y = Num 0, time = Num 0, lineWidth = 1.5, opacity = 1\<rparr>,
                      \<lparr>ph_x = Num 100, ph_y = Num 0, time = NaN, lineWidth = 1.5, opacity = 1\<rparr>],
       startTime = Num 0, endTime = NaN\<rparr>]"
  apply (simp add: generateMotionPlan_def oneStroke_def enumerate_eq_zip upt_rec)
  apply (simp add: planStroke_def strokeA_def strokeOf_def planStart_def mapPoint_identity
      filterRedundantPoints_pair upt_0_2 penLift_def Let_def)
  apply (simp add: planner_eval noSpeedStyle_def)
  done

text \<open>
  C3, as the code has it. For every analysis, canvas size and style, each emitted path has a
  point. When the style is absent, or is an object that has its \<^verbatim>\<open>base_ms_per_px\<close>, the times
  of the points of each path never decrease, \<^verbatim>\<open>startTime\<close> is the first point's time,
  \<^verbatim>\<open>endTime\<close> the last point's time and not before \<^verbatim>\<open>startTime\<close>, and no path starts before
  the path emitted before it has ended.
\<close>

theorem motion_plan_timing:
  "list_all (\<lambda>P. path_points P \<noteq> []) (generateMotionPlan data canvasWidth canvasHeight style)
   \<and> (styleHasSpeed style \<longrightarrow> timedPlan (generateMotionPlan data canvasWidth canvasHeight style))"
  using generateMotionPlan_nonempty [of data canvasWidth canvasHeight style]
    generateMotionPlan_timed [of style data canvasWidth canvasHeight]
  by blast

theorem motion_plan_timing_witness:
  "styleHasSpeed None
   \<and> list_all (\<lambda>P. path_points P \<noteq> []) (generateMotionPlan (Some twoStrokes) 10000 10000 None)
   \<and> timedPlan (generateMotionPlan (Some twoStrokes) 10000 10000 None)
   \<and> map (\<lambda>P. (startTime P, endTime P)) (generateMotionPlan (Some twoStrokes) 10000 10000 None)
       = [(Num 0, Num 120), (Num 185.5, Num 268.3)]"
proof -
  have "styleHasSpeed None" by (simp add: styleHasSpeed_def)
  with motion_plan_timing [of "Some twoStrokes" 10000 10000 None] generateMotionPlan_twoStrokes
  show ?thesis by blast
qed

text \<open>
  The claim as stated fails for a style object without \<^verbatim>\<open>base_ms_per_px\<close>: the stroke from
  0 to 100 is emitted as a path whose two points have the times 0 and NaN and whose
  \<^verbatim>\<open>endTime\<close> is NaN, so the second time is not at or after the first and the path does not
  end at or after its start.
\<close>

theorem motion_plan_timing_counterexample:
  "map (\<lambda>P. (map time (path_points P), startTime P, endTime P))
     (generateMotionPlan (Some oneStroke) 10000 10000 (Some noSpeedStyle))
     = [([Num 0, NaN], Num 0, NaN)]
   \<and> \<not> jsle (Num 0) NaN
   \<and> \<not> timedPlan (generateMotionPlan (Some oneStroke) 10000 10000 (Some noSpeedStyle))"
  unfolding generateMotionPlan_noSpeed by (simp add: timedPlan_def timedPath_def)

subsection \<open>The pen-lift threshold\<close>

lemma planStroke_emit:
  assumes "2 \<le> length (points s)"
  shows "\<exists>P q. planStroke c cw ch st (i, s) =
            \<lparr>paths = paths st @ [P], currentTime = endTime P, prevEndPos = Some q\<rparr>
          \<and> startTime P = penLift (prevEndPos st) (mapPoint cw ch (hd (points s))) (currentTime st)
          \<and> px q = px (mapPoint cw ch (last (points s)))
          \<and> py q = py (mapPoint cw ch (last (points s)))"
proof -
  define mp where "mp = map (mapPoint cw ch) (points s)"
  have ne: "points s \<noteq> []" "mp \<noteq> []" using assms by (auto simp: mp_def)
  have h: "hd (filterRedundantPoints mp) = mapPoint cw ch (hd (points s))"
    using ne by (simp add: filterRedundantPoints_hd mp_def hd_map)
  have l: "px (last (filterRedundantPoints mp)) = px (mapPoint cw ch (last (points s)))"
      "py (last (filterRedundantPoints mp)) = py (mapPoint cw ch (last (points s)))"
    using ne filterRedundantPoints_last [of mp] by (simp_all add: mp_def last_map)
  define start where
    "start = penLift (prevEndPos st) (mapPoint cw ch (hd (points s))) (currentTime st)"
  define walked where
    "walked = foldl (traverseStep c cw (filterRedundantPoints mp)) ([], start)
                [0..<length (filterRedundantPoints mp)]"
  define P where "P = \<lparr>path_id = ''stroke-'' @ showNat i, path_points = fst walked,
                    startTime = start, endTime = snd walked\<rparr>"
  have "\<not> length (points s) < 2" using assms by simp
  then have eq: "planStroke c cw ch st (i, s) =
      \<lparr>paths = paths st @ [P], currentTime = endTime P,
       prevEndPos = Some (last (filterRedundantPoints mp))\<rparr>"
    unfolding planStroke_def Let_def P_def walked_def start_def
    by (simp add: h [unfolded mp_def] mp_def)
  have "startTime P = start" by (simp add: P_def)
  with eq l show ?thesis unfolding start_def by blast
qed

lemma distP_coords: "px q = px q' \<Longrightarrow> py q = py q' \<Longrightarrow> distP p q = distP p q'"
  by (simp add: distP_def)

lemma penLift_gap:
  "penLift (Some q) p0 now =
     (if distP p0 q > 30 then jsplus now (Num (min (distP p0 q * 0.5) 250 + 50)) else now)"
  by (simp add: penLift_def Let_def)

text \<open>
  C6. Two strokes emitted one after the other, from any state of the planner: the second
  path directly follows the first, and with \<open>gap\<close> the distance from the first stroke's last
  mapped point to the second stroke's first mapped point, a gap of 29 px adds no lift time
  (the second path starts when the first ends) and a gap of 31 px moves the clock on by
  exactly 65.5 ms before the second path starts.
\<close>

theorem pen_lift_threshold:
  assumes "2 \<le> length (points s1)" and "2 \<le> length (points s2)"
    and st1_def: "st1 = planStroke c cw ch st (i, s1)"
    and st2_def: "st2 = planStroke c cw ch st1 (j, s2)"
    and gap_def: "gap = distP (mapPoint cw ch (hd (points s2))) (mapPoint cw ch (last (points s1)))"
  shows "paths st2 = paths st @ [last (paths st1), last (paths st2)]
       \<and> (gap = 29 \<longrightarrow> startTime (last (paths st2)) = endTime (last (paths st1)))
       \<and> (gap = 31 \<longrightarrow>
            startTime (last (paths st2)) = jsplus (endTime (last (paths st1))) (Num 65.5))"
proof -
  obtain P1 q1 where 1: "st1 = \<lparr>paths = paths st @ [P1], currentTime = endTime P1, prevEndPos = Some q1\<rparr>"
      "px q1 = px (mapPoint cw ch (last (points s1)))" "py q1 = py (mapPoint cw ch (last (points s1)))"
    unfolding st1_def using planStroke_emit [OF assms(1), of c cw ch st i] by blast
  obtain P2 q2 where 2: "st2 = \<lparr>paths = paths st1 @ [P2], currentTime = endTime P2, prevEndPos = Some q2\<rparr>"
      "startTime P2 = penLift (prevEndPos st1) (mapPoint cw ch (hd (points s2))) (currentTime st1)"
    unfolding st2_def using planStroke_emit [OF assms(2), of c cw ch st1 j] by blast
  have g: "distP (mapPoint cw ch (hd (points s2))) q1 = gap"
    unfolding gap_def using 1(2,3) by (rule distP_coords)
  have s: "startTime P2 =
      (if gap > 30 then jsplus (endTime P1) (Num (min (gap * 0.5) 250 + 50)) else endTime P1)"
    using 2(2) g by (simp add: 1(1) penLift_gap)
  have "gap = 29 \<longrightarrow> startTime P2 = endTime P1" using s by simp
  moreover have "gap = 31 \<longrightarrow> startTime P2 = jsplus (endTime P1) (Num 65.5)" using s by simp
  ultimately show ?thesis by (simp add: 1(1) 2(1))
qed

theorem pen_lift_threshold_witness:
  "2 \<le> length (points strokeA) \<and> 2 \<le> length (points strokeB31) \<and> 2 \<le> length (points strokeB29)
   \<and> distP (mapPoint 10000 10000 (hd (points strokeB31)))
            (mapPoint 10000 10000 (last (points strokeA))) = 31
   \<and> endTime (last (paths (planStroke (physicsConstants None) 10000 10000 planStart (0, strokeA))))
       = Num 120
   \<and> startTime (last (paths (planStroke (physicsConstants None) 10000 10000
         (planStroke (physicsConstants None) 10000 10000 planStart (0, strokeA)) (1, strokeB31))))
       = Num 185.5
   \<and> distP (mapPoint 10000 10000 (hd (points strokeB29)))
            (mapPoint 10000 10000 (last (points strokeA))) = 29
   \<and> startTime (last (paths (planStroke (physicsConstants None) 10000 10000
         (planStroke (physicsConstants None) 10000 10000 planStart (0, strokeA)) (1, strokeB29))))
       = Num 120"
proof -
  have len: "2 \<le> length (points strokeA)" "2 \<le> length (points strokeB31)"
      "2 \<le> length (points strokeB29)"
    by (simp_all add: strokeA_def strokeB31_def strokeB29_def strokeOf_def)
  have g31: "distP (mapPoint 10000 10000 (hd (points strokeB31)))
            (mapPoint 10000 10000 (last (points strokeA))) = 31"
    by (simp add: strokeA_def strokeB31_def strokeOf_def mapPoint_def distP_def pt_def Let_def sqrt_961)
  have g29: "distP (mapPoint 10000 10000 (hd (points strokeB29)))
            (mapPoint 10000 10000 (last (points strokeA))) = 29"
    by (simp add: strokeA_def strokeB29_def strokeOf_def mapPoint_def distP_def pt_def Let_def sqrt_841)
  have e: "endTime (last (paths (planStroke (physicsConstants None) 10000 10000 planStart (0, strokeA))))
       = Num 120"
    by (simp add: planStroke_strokeA)
  have "startTime (last (paths (planStroke (physicsConstants None) 10000 10000
         (planStroke (physicsConstants None) 10000 10000 planStart (0, strokeA)) (1, strokeB31))))
       = jsplus (Num 120) (Num 65.5)"
    using pen_lift_threshold [OF len(1) len(2) refl refl refl, of "physicsConstants None" 10000 10000
        planStart 0 1] g31 e by simp
  moreover have "startTime (last (paths (planStroke (physicsConstants None) 10000 10000
         (planStroke (physicsConstants None) 10000 10000 planStart (0, strokeA)) (1, strokeB29))))
       = Num 120"
    using pen_lift_threshold [OF len(1) len(3) refl refl refl, of "physicsConstants None" 10000 10000
        planStart 0 1] g29 e by simp
  ultimately show ?thesis using len g31 g29 e by simp
qed

section \<open>The motion planner: style defaults\<close>

lemma planStroke_same:
  assumes "baseMsPerPx c1 = baseMsPerPx c2" "baseWidthScale c1 = baseWidthScale c2"
    "fallbackWidth c1 = fallbackWidth c2" "speedPenalty c1 = speedPenalty c2"
    "tremor c1 = tremor c2"
  shows "planStroke c1 = planStroke c2"
proof -
  have seg: "segmentDt c1 = segmentDt c2"
    by (intro ext) (simp only: segmentDt_def assms(1))
  have "traverseStep c1 = traverseStep c2"
    by (intro ext) (simp only: traverseStep_def assms seg)
  then show ?thesis
    by (intro ext) (simp only: planStroke_def)
qed

lemma tremor_off:
  "tremorAmp c = None \<or> tremorAmp c = Some 0 \<or> tremorFreq c = None \<or> tremorFreq c = Some 0
     \<Longrightarrow> tremor c t = (Num 0, Num 0)"
  by (auto simp: tremor_def split: option.splits)

lemma speedPenalty_off:
  "inertia c = None \<or> inertia c = Some 0 \<Longrightarrow> speedPenalty c pp i = 1"
  by (auto simp: speedPenalty_def)

lemma tremor_depends:
  "tremorAmp c1 = tremorAmp c2 \<Longrightarrow> tremorFreq c1 = tremorFreq c2 \<Longrightarrow> tremor c1 = tremor c2"
  by (simp add: tremor_def fun_eq_iff)

lemma speedPenalty_depends:
  "inertia c1 = inertia c2 \<Longrightarrow> speedPenalty c1 = speedPenalty c2"
  by (simp add: speedPenalty_def fun_eq_iff)

lemma tremor_orDefault:
  assumes "tremorAmp c2 = orDefault 0 (tremorAmp c1)" "tremorFreq c2 = orDefault 0 (tremorFreq c1)"
  shows "tremor c1 = tremor c2"
proof (rule ext)
  fix t
  show "tremor c1 t = tremor c2 t"
  proof (cases "tremorAmp c1 = None \<or> tremorFreq c1 = None")
    case True
    then have "tremor c1 t = (Num 0, Num 0)" by (auto intro: tremor_off)
    moreover have "tremor c2 t = (Num 0, Num 0)"
      using True assms by (auto intro!: tremor_off simp: orDefault_def)
    ultimately show ?thesis by simp
  next
    case False
    then have "tremorAmp c2 = tremorAmp c1" "tremorFreq c2 = tremorFreq c1"
      using assms by (auto simp: orDefault_def)
    then show ?thesis by (simp add: tremor_def)
  qed
qed

lemma speedPenalty_orDefault:
  assumes "inertia c2 = orDefault 0 (inertia c1)"
  shows "speedPenalty c1 = speedPenalty c2"
proof (cases "inertia c1")
  case None
  then have "inertia c2 = Some 0" using assms by (simp add: orDefault_def)
  then have "speedPenalty c2 pp i = 1" for pp i by (simp add: speedPenalty_off)
  moreover have "speedPenalty c1 pp i = 1" for pp i using None by (simp add: speedPenalty_off)
  ultimately show ?thesis by (intro ext) simp
next
  case (Some v)
  then have "inertia c1 = inertia c2" using assms by (simp add: orDefault_def)
  then show ?thesis by (rule speedPenalty_depends)
qed

lemma physicsConstants_fields:
  "baseMsPerPx (physicsConstants (Some s)) = base_ms_per_px s"
  "inertia (physicsConstants (Some s)) = inertia_factor s"
  "tremorAmp (physicsConstants (Some s)) = micro_tremor_amp_px s"
  "tremorFreq (physicsConstants (Some s)) = micro_tremor_freq_hz s"
  "baseWidthScale (physicsConstants (Some s)) =
     (case pressure_scale s of None \<Rightarrow> 1 | Some v \<Rightarrow> if v = 0 then 1 else v)"
  "fallbackWidth (physicsConstants (Some s)) = 1.5 * baseWidthScale (physicsConstants (Some s))"
  by (simp_all add: physicsConstants_def Let_def)

lemma withDefaults_fields:
  "base_ms_per_px (withDefaults s) = orDefault 1.2 (base_ms_per_px s)"
  "pressure_scale (withDefaults s) = orDefault 1 (pressure_scale s)"
  "inertia_factor (withDefaults s) = orDefault 0 (inertia_factor s)"
  "micro_tremor_amp_px (withDefaults s) = orDefault 0 (micro_tremor_amp_px s)"
  "micro_tremor_freq_hz (withDefaults s) = orDefault 0 (micro_tremor_freq_hz s)"
  by (simp_all add: withDefaults_def)

lemma physicsConstants_withDefaults:
  assumes "base_ms_per_px s \<noteq> None"
  shows "planStroke (physicsConstants (Some s)) = planStroke (physicsConstants (Some (withDefaults s)))"
proof (rule planStroke_same)
  show "baseMsPerPx (physicsConstants (Some s)) = baseMsPerPx (physicsConstants (Some (withDefaults s)))"
    using assms by (cases "base_ms_per_px s")
      (simp_all add: physicsConstants_fields(1) withDefaults_fields(1) orDefault_def)
  show w: "baseWidthScale (physicsConstants (Some s)) = baseWidthScale (physicsConstants (Some (withDefaults s)))"
    by (cases "pressure_scale s")
      (simp_all add: physicsConstants_fields(5) withDefaults_fields(2) orDefault_def)
  show "fallbackWidth (physicsConstants (Some s)) = fallbackWidth (physicsConstants (Some (withDefaults s)))"
    by (simp only: physicsConstants_fields(6) w)
  show "speedPenalty (physicsConstants (Some s)) = speedPenalty (physicsConstants (Some (withDefaults s)))"
    by (rule speedPenalty_orDefault) (simp only: physicsConstants_fields(2) withDefaults_fields(3))
  show "tremor (physicsConstants (Some s)) = tremor (physicsConstants (Some (withDefaults s)))"
    by (rule tremor_orDefault) (simp_all only: physicsConstants_fields(3,4) withDefaults_fields(4,5))
qed

lemma physicsConstants_default:
  "physicsConstants None = physicsConstants (Some defaultStyle)"
  by (simp add: physicsConstants_def defaultStyle_def)

lemma times_numeric:
  "successively (\<lambda>p q. jsle (time p) (time q)) ps \<Longrightarrow> ps \<noteq> [] \<Longrightarrow> isNum (time (hd ps))
     \<Longrightarrow> list_all (\<lambda>p. isNum (time p)) ps"
proof (induction ps)
  case Nil
  then show ?case by simp
next
  case (Cons p ps)
  show ?case
  proof (cases ps)
    case Nil
    with Cons.prems show ?thesis by simp
  next
    case (Cons q qs)
    have "jsle (time p) (time q)" using Cons.prems(1) Cons by simp
    then have "isNum (time q)" by (cases "time p"; cases "time q") auto
    with Cons.IH Cons.prems Cons show ?thesis by simp
  qed
qed

lemma jsle_isNum: "jsle u v \<Longrightarrow> isNum u \<and> isNum v"
  by (cases u; cases v) auto

lemma timedPlan_numeric: "timedPlan plan \<Longrightarrow> numericPlan plan"
proof -
  assume tp: "timedPlan plan"
  have "timedPath P \<Longrightarrow> isNum (startTime P) \<and> isNum (endTime P)
                  \<and> list_all (\<lambda>p. isNum (time p)) (path_points P)" for P
  proof -
    assume P: "timedPath P"
    then have "jsle (startTime P) (endTime P)" unfolding timedPath_def by blast
    then have n: "isNum (startTime P) \<and> isNum (endTime P)" by (rule jsle_isNum)
    have "successively (\<lambda>p q. jsle (time p) (time q)) (path_points P)" "path_points P \<noteq> []"
      "startTime P = time (hd (path_points P))"
      using P unfolding timedPath_def by blast+
    with n have "list_all (\<lambda>p. isNum (time p)) (path_points P)"
      by (intro times_numeric) simp_all
    with n show ?thesis by simp
  qed
  then have "list_all timedPath plan \<Longrightarrow> numericPlan plan"
    unfolding numericPlan_def by (induction plan) simp_all
  with tp show ?thesis by (simp add: timedPlan_def)
qed

text \<open>
  C2, as the code has it. With no style the plan is the plan under the fixed defaults
  (\<^verbatim>\<open>base_ms_per_px = 1.2\<close>, width scale 1, inertia 0, tremor 0). With a style object that
  has its \<^verbatim>\<open>base_ms_per_px\<close>, the plan is the plan with the fixed default put in for every
  other missing field, and every timestamp is a number.
\<close>

theorem style_defaults:
  "generateMotionPlan data canvasWidth canvasHeight None
     = generateMotionPlan data canvasWidth canvasHeight (Some defaultStyle)
   \<and> (base_ms_per_px s \<noteq> None \<longrightarrow>
        generateMotionPlan data canvasWidth canvasHeight (Some s)
          = generateMotionPlan data canvasWidth canvasHeight (Some (withDefaults s))
        \<and> numericPlan (generateMotionPlan data canvasWidth canvasHeight (Some s)))"
proof -
  have a: "generateMotionPlan data canvasWidth canvasHeight None
     = generateMotionPlan data canvasWidth canvasHeight (Some defaultStyle)"
    unfolding generateMotionPlan_def physicsConstants_default ..
  have b: "generateMotionPlan data canvasWidth canvasHeight (Some s)
          = generateMotionPlan data canvasWidth canvasHeight (Some (withDefaults s))"
    if "base_ms_per_px s \<noteq> None"
    unfolding generateMotionPlan_def physicsConstants_withDefaults [OF that] ..
  have c: "numericPlan (generateMotionPlan data canvasWidth canvasHeight (Some s))"
    if "base_ms_per_px s \<noteq> None"
    using that by (intro timedPlan_numeric generateMotionPlan_timed) (simp add: styleHasSpeed_def)
  from a b c show ?thesis by blast
qed

theorem style_defaults_witness:
  "base_ms_per_px speedOnlyStyle \<noteq> None
   \<and> generateMotionPlan (Some twoStrokes) 10000 10000 (Some speedOnlyStyle)
       = generateMotionPlan (Some twoStrokes) 10000 10000 (Some (withDefaults speedOnlyStyle))
   \<and> numericPlan (generateMotionPlan (Some twoStrokes) 10000 10000 (Some speedOnlyStyle))
   \<and> generateMotionPlan (Some twoStrokes) 10000 10000 None
       = generateMotionPlan (Some twoStrokes) 10000 10000 (Some defaultStyle)"
proof -
  have "base_ms_per_px speedOnlyStyle \<noteq> None" by (simp add: speedOnlyStyle_def)
  with style_defaults [of "Some twoStrokes" 10000 10000 speedOnlyStyle] show ?thesis by blast
qed

text \<open>
  The claim as stated fails for a style object without \<^verbatim>\<open>base_ms_per_px\<close>: the field is
  read as it is, the segment duration is NaN, and the path ends at NaN, where the plan with
  the default 1.2 put in ends at 120 ms.
\<close>

theorem style_defaults_counterexample:
  "map endTime (generateMotionPlan (Some oneStroke) 10000 10000 (Some noSpeedStyle)) = [NaN]
   \<and> map endTime (generateMotionPlan (Some oneStroke) 10000 10000 (Some (withDefaults noSpeedStyle)))
       = [Num 120]"
  apply (simp add: generateMotionPlan_def oneStroke_def enumerate_eq_zip upt_rec)
  apply (simp add: planStroke_def strokeA_def strokeOf_def planStart_def mapPoint_identity
      filterRedundantPoints_pair upt_0_2 penLift_def Let_def)
  apply (simp add: planner_eval noSpeedStyle_def withDefaults_def orDefault_def)
  done

section \<open>Simplification keeps the endpoints\<close>

lemma simplifyLoop_hd:
  "finalPoints \<noteq> [] \<Longrightarrow> simplifyLoop finalPoints rest \<noteq> [] \<and>
     hd (simplifyLoop finalPoints rest) = hd finalPoints"
  by (induction finalPoints rest rule: simplifyLoop.induct) auto

text \<open>
  C7. For every stroke that reaches the simplification stage (its jitter-filtered point
  list has at least three points), the simplified output starts with the first
  jitter-filtered point and ends with the last one.
\<close>

theorem simplify_keeps_endpoints:
  assumes "3 \<le> length jitterFreePoints"
  shows "hd (simplifyPoints jitterFreePoints) = hd jitterFreePoints
       \<and> last (simplifyPoints jitterFreePoints) = last jitterFreePoints"
proof (cases jitterFreePoints)
  case Nil
  with assms show ?thesis by simp
next
  case (Cons p0 rest)
  have "simplifyLoop [p0] rest \<noteq> []" "hd (simplifyLoop [p0] rest) = p0"
    using simplifyLoop_hd [of "[p0]" rest] by simp_all
  with Cons show ?thesis by simp
qed

theorem simplify_keeps_endpoints_witness:
  "3 \<le> length [pt 0 0, pt 10 10, pt 20 0]
   \<and> hd (simplifyPoints [pt 0 0, pt 10 10, pt 20 0]) = pt 0 0
   \<and> last (simplifyPoints [pt 0 0, pt 10 10, pt 20 0]) = pt 20 0"
  using simplify_keeps_endpoints [of "[pt 0 0, pt 10 10, pt 20 0]"] by simp

end
